theory Spec2Isabelle
  imports Complex_Main "HOL-Library.AList"
begin

section \<open>JavaScript values and errors\<close>

text \<open>
  The bridge (\<^verbatim>\<open>EngineBridge\<close>, a Node.js class) exchanges JSON values with a worker
  process. \<open>jsval\<close> is what \<^verbatim>\<open>JSON.parse\<close> can return, plus \<^verbatim>\<open>undefined\<close> for
  absent properties. An object is the list of its properties in insertion order, each
  name once. Numbers are only ever tested for being zero.
\<close>

datatype jsval =
    JUndefined
  | JNull
  | JBool bool
  | JNum real
  | JStr string
  | JArr "jsval list"
  | JObj "(string \<times> jsval) list"

text \<open>
  Error objects. \<open>Error v\<close> is \<^verbatim>\<open>new Error(v)\<close>, named by the constructor's argument;
  \<open>ErrorT p v\<close> is \<^verbatim>\<open>new Error(`p${v}`)\<close>, a template literal with prefix \<open>p\<close>;
  \<open>TypeError\<close> is thrown by a property read on \<^verbatim>\<open>null\<close> or \<^verbatim>\<open>undefined\<close>;
  \<open>RuntimeError d\<close> is an error object handed in by the runtime (the child process's
  \<^verbatim>\<open>'error'\<close> event).
\<close>

datatype js_error =
    Error jsval
  | ErrorT string jsval
  | TypeError
  | RuntimeError string

fun nullish :: "jsval \<Rightarrow> bool" where
  "nullish JUndefined = True"
| "nullish JNull = True"
| "nullish _ = False"

fun truthy :: "jsval \<Rightarrow> bool" where
  "truthy JUndefined = False"
| "truthy JNull = False"
| "truthy (JBool b) = b"
| "truthy (JNum n) = (n \<noteq> 0)"
| "truthy (JStr s) = (s \<noteq> [])"
| "truthy (JArr _) = True"
| "truthy (JObj _) = True"

text \<open>
  \<open>js_prop v k\<close> is \<^verbatim>\<open>v.k\<close> for a value that is neither null nor undefined, for the property
  names the bridge reads (id, status, data, error, message, type): an own property of an
  object, \<^verbatim>\<open>undefined\<close> on anything else. \<open>get_prop\<close> adds the TypeError of a read on
  null or undefined, \<open>opt_prop\<close> is the optional chaining \<^verbatim>\<open>v?.k\<close>.
\<close>

fun js_prop :: "jsval \<Rightarrow> string \<Rightarrow> jsval" where
  "js_prop (JObj kvs) k = (case map_of kvs k of None \<Rightarrow> JUndefined | Some v \<Rightarrow> v)"
| "js_prop _ k = JUndefined"

definition get_prop :: "jsval \<Rightarrow> string \<Rightarrow> js_error + jsval" where
  "get_prop v k = (if nullish v then Inl TypeError else Inr (js_prop v k))"

definition opt_prop :: "jsval \<Rightarrow> string \<Rightarrow> jsval" where
  "opt_prop v k = (if nullish v then JUndefined else js_prop v k)"

section \<open>The bridge's state\<close>

text \<open>
  Every run of a promise executor (in \<^verbatim>\<open>waitForReady\<close>, \<^verbatim>\<open>send\<close>,
  \<^verbatim>\<open>sendStreaming\<close>) creates one promise, one timer and at most one listener closure.
  A \<open>handle\<close> is the identity of that group of objects: the promise \<open>h\<close>, its timer and
  its handler. The caller's \<^verbatim>\<open>onChunk\<close> sink of a streaming call is named by the same
  handle; it is the caller's code, and is taken to return normally and not to call back
  into the bridge.
\<close>

type_synonym handle = nat

datatype timer =
    StartupTimer handle
  | RequestTimer handle string
  | StreamingTimer handle string

datatype listener =
    ReadyHandler handle
  | StreamHandler handle string

fun thandle :: "timer \<Rightarrow> handle" where
  "thandle (StartupTimer h) = h"
| "thandle (RequestTimer h i) = h"
| "thandle (StreamingTimer h i) = h"

fun lhandle :: "listener \<Rightarrow> handle" where
  "lhandle (ReadyHandler h) = h"
| "lhandle (StreamHandler h i) = h"

text \<open>\<^verbatim>\<open>interface PendingRequest { resolve; reject; timeout }\<close>: the two functions of
  one promise, and the timer.\<close>

record pending_request =
  promise :: handle
  timeout :: timer

datatype proc = Running | Killed

datatype rl = Open | Closed

text \<open>The side effects of the bridge, in program order. A timer is set with its delay in
  milliseconds.\<close>

datatype action =
    Spawn string string
  | Kill
  | ReadlineClose
  | SetTimeout timer int
  | ClearTimeout timer
  | AddListener listener
  | RemoveListener listener
  | PendingSet string handle
  | PendingDelete jsval
  | PendingClear
  | Resolve handle jsval
  | Reject handle js_error
  | OnChunk handle jsval
  | StdinWrite jsval
  | EmitLog string
  | EmitExit jsval
  | EmitError js_error

text \<open>
  The fields of the class (\<open>process\<close>, \<open>readline\<close>, \<open>pending\<close>, \<open>enginePath\<close>,
  \<open>ready\<close>), the listeners of the inherited EventEmitter (\<open>listeners\<close> for
  \<^verbatim>\<open>'response'\<close> in registration order, \<open>error_listeners\<close> counting the callers'
  listeners for \<^verbatim>\<open>'error'\<close>), and the runtime: the armed timers, the next fresh
  handle and the trace of actions. \<open>pending\<close> is a JavaScript \<^verbatim>\<open>Map\<close>: keys are unique
  and iteration follows insertion order.
\<close>

record bridge =
  process :: "proc option"
  readline :: "rl option"
  pending :: "(string \<times> pending_request) list"
  enginePath :: string
  ready :: bool
  listeners :: "listener list"
  error_listeners :: nat
  timers :: "timer list"
  next_handle :: handle
  trace :: "action list"

text \<open>\<^verbatim>\<open>constructor(enginePath?)\<close>: \<^verbatim>\<open>enginePath || getEnginePath()\<close>; the
  default path (from \<^verbatim>\<open>utils/paths\<close>) is a parameter.\<close>

definition new_bridge :: "string option \<Rightarrow> string \<Rightarrow> bridge" where
  "new_bridge path default_path =
     \<lparr> process = None, readline = None, pending = [],
       enginePath = (case path of None \<Rightarrow> default_path
                     | Some p \<Rightarrow> if p \<noteq> [] then p else default_path),
       ready = False, listeners = [], error_listeners = 0,
       timers = [], next_handle = 0, trace = [] \<rparr>"

section \<open>Primitive operations\<close>

definition act :: "action \<Rightarrow> bridge \<Rightarrow> bridge" where
  "act a s = s\<lparr>trace := trace s @ [a]\<rparr>"

definition setTimeout :: "timer \<Rightarrow> int \<Rightarrow> bridge \<Rightarrow> bridge" where
  "setTimeout t ms s = act (SetTimeout t ms) (s\<lparr>timers := timers s @ [t]\<rparr>)"

definition clearTimeout :: "timer \<Rightarrow> bridge \<Rightarrow> bridge" where
  "clearTimeout t s = act (ClearTimeout t) (s\<lparr>timers := removeAll t (timers s)\<rparr>)"

text \<open>\<^verbatim>\<open>this.on('response', handler)\<close> appends; \<^verbatim>\<open>removeListener\<close> removes the most
  recently added instance.\<close>

definition on_response :: "listener \<Rightarrow> bridge \<Rightarrow> bridge" where
  "on_response l s = act (AddListener l) (s\<lparr>listeners := listeners s @ [l]\<rparr>)"

definition removeListener :: "listener \<Rightarrow> bridge \<Rightarrow> bridge" where
  "removeListener l s =
     act (RemoveListener l) (s\<lparr>listeners := rev (remove1 l (rev (listeners s)))\<rparr>)"

text \<open>The map's keys are strings, so a lookup or a delete with any other value finds
  nothing.\<close>

definition pending_set :: "string \<Rightarrow> pending_request \<Rightarrow> bridge \<Rightarrow> bridge" where
  "pending_set k p s =
     act (PendingSet k (promise p)) (s\<lparr>pending := AList.update k p (pending s)\<rparr>)"

fun pending_get :: "bridge \<Rightarrow> jsval \<Rightarrow> pending_request option" where
  "pending_get s (JStr k) = map_of (pending s) k"
| "pending_get s _ = None"

fun pending_delete :: "jsval \<Rightarrow> bridge \<Rightarrow> bridge" where
  "pending_delete (JStr k) s =
     act (PendingDelete (JStr k)) (s\<lparr>pending := AList.delete k (pending s)\<rparr>)"
| "pending_delete v s = act (PendingDelete v) s"

definition pending_clear :: "bridge \<Rightarrow> bridge" where
  "pending_clear s = act PendingClear (s\<lparr>pending := []\<rparr>)"

definition resolve :: "handle \<Rightarrow> jsval \<Rightarrow> bridge \<Rightarrow> bridge" where
  "resolve h v s = act (Resolve h v) s"

definition reject :: "handle \<Rightarrow> js_error \<Rightarrow> bridge \<Rightarrow> bridge" where
  "reject h e s = act (Reject h e) s"

definition onChunk :: "handle \<Rightarrow> jsval \<Rightarrow> bridge \<Rightarrow> bridge" where
  "onChunk h chunk s = act (OnChunk h chunk) s"

text \<open>\<^verbatim>\<open>this.process?.stdin?.write(message)\<close>: the message is the JSON text of the
  object and a newline; stdin is a pipe whenever the process was spawned.\<close>

definition stdin_write :: "jsval \<Rightarrow> bridge \<Rightarrow> bridge" where
  "stdin_write message s = (if process s = None then s else act (StdinWrite message) s)"

definition emit_log :: "string \<Rightarrow> bridge \<Rightarrow> bridge" where
  "emit_log text s = act (EmitLog text) s"

text \<open>\<^verbatim>\<open>response.error?.message || 'Unknown error'\<close>, for a response that is not
  null.\<close>

definition error_message :: "jsval \<Rightarrow> jsval" where
  "error_message response =
     (let m = opt_prop (js_prop response ''error'') ''message''
      in if truthy m then m else JStr ''Unknown error'')"

section \<open>The methods of EngineBridge\<close>

text \<open>\<^verbatim>\<open>waitForReady\<close>: the executor arms the startup timer and registers the handler.
  The timer's callback only rejects.\<close>

definition waitForReady :: "bridge \<Rightarrow> handle \<times> bridge" where
  "waitForReady s =
     (let h = next_handle s;
          s0 = s\<lparr>next_handle := Suc h\<rparr>;
          s1 = setTimeout (StartupTimer h) 30000 s0;
          s2 = on_response (ReadyHandler h) s1
      in (h, s2))"

definition startup_timeout :: "handle \<Rightarrow> bridge \<Rightarrow> bridge" where
  "startup_timeout h s = reject h (Error (JStr ''Engine startup timeout'')) s"

text \<open>\<^verbatim>\<open>path.join\<close>, for a base and segments that need no normalisation (no
  trailing separator, no \<^verbatim>\<open>.\<close> or \<^verbatim>\<open>..\<close>); the result is only used as the text
  of a path.\<close>

definition path_join :: "string \<Rightarrow> string list \<Rightarrow> string" where
  "path_join base segs = foldl (\<lambda>p seg. p @ ''/'' @ seg) base segs"

text \<open>\<^verbatim>\<open>start\<close>: \<open>existsSync\<close> is the file system's answer. The result is the error
  thrown, or the handle of the promise awaited and the new state.\<close>

definition start :: "(string \<Rightarrow> bool) \<Rightarrow> bridge \<Rightarrow> js_error + handle \<times> bridge" where
  "start existsSync s =
     (let venvPython = path_join (enginePath s) [''.venv'', ''bin'', ''python''];
          systemPython = ''python3'';
          pythonExe = (if existsSync venvPython then venvPython else systemPython);
          mainScript = path_join (enginePath s) [''main.py'']
      in if \<not> existsSync mainScript
         then Inl (ErrorT ''Engine not found at '' (JStr mainScript))
         else Inr (waitForReady
                (act (Spawn pythonExe mainScript) (s\<lparr>process := Some Running, readline := Some Open\<rparr>))))"

text \<open>The handlers registered on \<^verbatim>\<open>'response'\<close>. The result carries the exception
  thrown, if any, and the state reached.\<close>

fun call_listener :: "listener \<Rightarrow> jsval \<Rightarrow> bridge \<Rightarrow> js_error option \<times> bridge" where
  "call_listener (ReadyHandler h) response s =
     (case get_prop response ''id'' of
        Inl e \<Rightarrow> (Some e, s)
      | Inr i \<Rightarrow>
          if i = JStr ''ready''
          then (None, resolve h JUndefined
                  (removeListener (ReadyHandler h)
                    ((clearTimeout (StartupTimer h) s)\<lparr>ready := True\<rparr>)))
          else (None, s))"
| "call_listener (StreamHandler h ident) response s =
     (case get_prop response ''id'' of
        Inl e \<Rightarrow> (Some e, s)
      | Inr i \<Rightarrow>
          if i \<noteq> JStr ident then (None, s)
          else if js_prop response ''status'' = JStr ''streaming'' then
            (let s1 = onChunk h (js_prop response ''data'') s
             in if opt_prop (js_prop response ''data'') ''type'' = JStr ''done''
                then (None, resolve h JUndefined
                        (removeListener (StreamHandler h ident)
                          (clearTimeout (StreamingTimer h ident) s1)))
                else (None, s1))
          else if js_prop response ''status'' = JStr ''error'' then
            (None, reject h (Error (error_message response))
                     (removeListener (StreamHandler h ident)
                       (clearTimeout (StreamingTimer h ident) s)))
          else if js_prop response ''status'' = JStr ''success'' then
            (None, resolve h JUndefined
                     (onChunk h (JObj [(''type'', JStr ''done''), (''data'', js_prop response ''data'')])
                       (removeListener (StreamHandler h ident)
                         (clearTimeout (StreamingTimer h ident) s))))
          else (None, s))"

text \<open>\<^verbatim>\<open>this.emit('response', response)\<close> calls the listeners registered when the emit
  starts, in order; an exception ends it.\<close>

fun emit_response :: "listener list \<Rightarrow> jsval \<Rightarrow> bridge \<Rightarrow> js_error option \<times> bridge" where
  "emit_response [] response s = (None, s)"
| "emit_response (l # ls) response s =
     (case call_listener l response s of
        (Some e, s') \<Rightarrow> (Some e, s')
      | (None, s') \<Rightarrow> emit_response ls response s')"

definition handleResponse :: "jsval \<Rightarrow> bridge \<Rightarrow> js_error option \<times> bridge" where
  "handleResponse response s =
     (case emit_response (listeners s) response s of
        (Some e, s1) \<Rightarrow> (Some e, s1)
      | (None, s1) \<Rightarrow>
          (case get_prop response ''id'' of
             Inl e \<Rightarrow> (Some e, s1)
           | Inr i \<Rightarrow>
               (case pending_get s1 i of
                  None \<Rightarrow> (None, s1)
                | Some p \<Rightarrow>
                    if js_prop response ''status'' \<noteq> JStr ''streaming'' then
                      (let s2 = pending_delete i (clearTimeout (timeout p) s1)
                       in if js_prop response ''status'' = JStr ''error''
                          then (None, reject (promise p) (Error (error_message response)) s2)
                          else (None, resolve (promise p) (js_prop response ''data'') s2))
                    else (None, s1))))"

text \<open>\<^verbatim>\<open>rejectAllPending\<close>: the loop over the map's entries, then \<^verbatim>\<open>clear()\<close>.\<close>

definition rejectAllPending :: "js_error \<Rightarrow> bridge \<Rightarrow> bridge" where
  "rejectAllPending error s =
     pending_clear
       (fold (\<lambda>(ident, p) s'. reject (promise p) error (clearTimeout (timeout p) s'))
          (pending s) s)"

text \<open>\<^verbatim>\<open>send\<close>: \<open>ident\<close> is the value of \<^verbatim>\<open>randomUUID()\<close>, \<open>now\<close> that of
  \<^verbatim>\<open>new Date().toISOString()\<close>. The timer's callback deletes the entry and rejects.\<close>

definition send :: "(string \<times> jsval) list \<Rightarrow> string \<Rightarrow> string \<Rightarrow> bridge \<Rightarrow> js_error + handle \<times> bridge" where
  "send request ident now s =
     (if \<not> ready s then Inl (Error (JStr ''Engine not ready''))
      else
        (let h = next_handle s;
             s0 = s\<lparr>next_handle := Suc h\<rparr>;
             s1 = setTimeout (RequestTimer h ident) 60000 s0;
             s2 = pending_set ident \<lparr>promise = h, timeout = RequestTimer h ident\<rparr> s1;
             message = JObj (AList.update ''timestamp'' (JStr now)
                              (AList.update ''id'' (JStr ident) request));
             s3 = stdin_write message s2
         in Inr (h, s3)))"

definition request_timeout :: "handle \<Rightarrow> string \<Rightarrow> bridge \<Rightarrow> bridge" where
  "request_timeout h ident s =
     reject h (Error (JStr ''Request timeout (60s)'')) (pending_delete (JStr ident) s)"

text \<open>\<^verbatim>\<open>sendStreaming\<close>: the session is the handler on \<^verbatim>\<open>'response'\<close>; it is not
  entered in \<open>pending\<close>.\<close>

definition sendStreaming :: "(string \<times> jsval) list \<Rightarrow> string \<Rightarrow> string \<Rightarrow> bridge \<Rightarrow> js_error + handle \<times> bridge" where
  "sendStreaming request ident now s =
     (if \<not> ready s then Inl (Error (JStr ''Engine not ready''))
      else
        (let h = next_handle s;
             s0 = s\<lparr>next_handle := Suc h\<rparr>;
             s1 = setTimeout (StreamingTimer h ident) 300000 s0;
             s2 = on_response (StreamHandler h ident) s1;
             message = JObj (AList.update ''timestamp'' (JStr now)
                              (AList.update ''id'' (JStr ident) request));
             s3 = stdin_write message s2
         in Inr (h, s3)))"

definition streaming_timeout :: "handle \<Rightarrow> string \<Rightarrow> bridge \<Rightarrow> bridge" where
  "streaming_timeout h ident s =
     reject h (Error (JStr ''Streaming timeout (300s)''))
       (removeListener (StreamHandler h ident) s)"

text \<open>\<^verbatim>\<open>stop\<close>: none of its four statements throws; \<^verbatim>\<open>kill()\<close> on a process that
  is gone and \<^verbatim>\<open>close()\<close> on a closed interface are calls without effect. The
  fields keep the child and the line reader of the last \<^verbatim>\<open>start()\<close>, with what
  the bridge has done to them.\<close>

definition kill :: "bridge \<Rightarrow> bridge" where
  "kill s =
     (case process s of
        None \<Rightarrow> s
      | Some p \<Rightarrow> act Kill (s\<lparr>process := Some Killed\<rparr>))"

definition readline_close :: "bridge \<Rightarrow> bridge" where
  "readline_close s =
     (case readline s of
        None \<Rightarrow> s
      | Some r \<Rightarrow> act ReadlineClose (s\<lparr>readline := Some Closed\<rparr>))"

definition stop :: "bridge \<Rightarrow> bridge" where
  "stop s =
     rejectAllPending (Error (JStr ''Engine stopped''))
       (readline_close (kill (s\<lparr>ready := False\<rparr>)))"

section \<open>The handlers registered by start\<close>

text \<open>The \<^verbatim>\<open>'line'\<close> handler: \<open>parsed\<close> is the result of \<^verbatim>\<open>JSON.parse(line)\<close>, \<open>None\<close>
  when it throws. The \<^verbatim>\<open>catch\<close> covers the parse and \<^verbatim>\<open>handleResponse\<close>.\<close>

definition on_line :: "string \<Rightarrow> jsval option \<Rightarrow> bridge \<Rightarrow> bridge" where
  "on_line line parsed s =
     (case parsed of
        None \<Rightarrow> emit_log (''[engine] '' @ line) s
      | Some response \<Rightarrow>
          (case handleResponse response s of
             (Some e, s') \<Rightarrow> emit_log (''[engine] '' @ line) s'
           | (None, s') \<Rightarrow> s'))"

text \<open>The stderr handler: \<open>text\<close> is \<^verbatim>\<open>data.toString().trim()\<close>.\<close>

definition on_stderr :: "string \<Rightarrow> bridge \<Rightarrow> bridge" where
  "on_stderr text s = emit_log (''[engine:stderr] '' @ text) s"

definition on_exit :: "jsval \<Rightarrow> bridge \<Rightarrow> bridge" where
  "on_exit code s =
     rejectAllPending (ErrorT ''Engine exited with code '' code) (act (EmitExit code) s)"

text \<open>The \<^verbatim>\<open>'error'\<close> handler: an EventEmitter with no listener for \<^verbatim>\<open>'error'\<close> throws
  the error from \<^verbatim>\<open>emit\<close>, and the sweep after it is not reached.\<close>

definition on_error :: "js_error \<Rightarrow> bridge \<Rightarrow> js_error option \<times> bridge" where
  "on_error error s =
     (if error_listeners s = 0 then (Some error, s)
      else (None, rejectAllPending error (act (EmitError error) s)))"

section \<open>Events\<close>

text \<open>
  What can happen to a bridge: a caller calls a method or registers a listener for
  \<^verbatim>\<open>'error'\<close>, the worker's streams deliver data, the process ends or fails, a timer
  fires. JavaScript runs one handler at a time, to completion, so a run of the bridge is
  a sequence of such events. Every \<^verbatim>\<open>start()\<close> spawns a child and creates a line
  reader with handlers of their own, and \<^verbatim>\<open>stop()\<close> kills and closes only the last
  ones, which are all the fields hold. So lines and process events may come from any
  child that has been spawned, also after a \<^verbatim>\<open>stop()\<close>. The state does not tell
  the children and readers apart: a line is taken to be possible whenever a line reader
  has been created, a process event whenever a child has been spawned, in any number
  and order. That covers every run of the bridge, and more. Timers fire only while
  armed, each once and at any time after it is set. A call that throws leaves the state
  as it is; an exception that escapes a handler of the runtime is not caught by the
  bridge.
\<close>

datatype event =
    CallStart "string \<Rightarrow> bool"
  | CallSend "(string \<times> jsval) list" string string
  | CallSendStreaming "(string \<times> jsval) list" string string
  | CallStop
  | ListenError
  | Line string "jsval option"
  | Stderr string
  | Exit jsval
  | ProcError js_error
  | Timeout timer

fun timer_callback :: "timer \<Rightarrow> bridge \<Rightarrow> bridge" where
  "timer_callback (StartupTimer h) s = startup_timeout h s"
| "timer_callback (RequestTimer h ident) s = request_timeout h ident s"
| "timer_callback (StreamingTimer h ident) s = streaming_timeout h ident s"

definition fire :: "timer \<Rightarrow> bridge \<Rightarrow> bridge" where
  "fire t s =
     (if t \<in> set (timers s)
      then timer_callback t (s\<lparr>timers := removeAll t (timers s)\<rparr>)
      else s)"

fun step :: "event \<Rightarrow> bridge \<Rightarrow> bridge" where
  "step (CallStart existsSync) s =
     (case start existsSync s of Inl e \<Rightarrow> s | Inr (h, s') \<Rightarrow> s')"
| "step (CallSend request ident now) s =
     (case send request ident now s of Inl e \<Rightarrow> s | Inr (h, s') \<Rightarrow> s')"
| "step (CallSendStreaming request ident now) s =
     (case sendStreaming request ident now s of Inl e \<Rightarrow> s | Inr (h, s') \<Rightarrow> s')"
| "step CallStop s = stop s"
| "step ListenError s = s\<lparr>error_listeners := Suc (error_listeners s)\<rparr>"
| "step (Line line parsed) s = (if readline s = None then s else on_line line parsed s)"
| "step (Stderr text) s = (if process s = None then s else on_stderr text s)"
| "step (Exit code) s = (if process s = None then s else on_exit code s)"
| "step (ProcError error) s = (if process s = None then s else snd (on_error error s))"
| "step (Timeout t) s = fire t s"

definition run :: "event list \<Rightarrow> bridge \<Rightarrow> bridge" where
  "run evs s = fold step evs s"

section \<open>Observations\<close>

text \<open>The calls of a promise's \<^verbatim>\<open>resolve\<close> and \<^verbatim>\<open>reject\<close>, and the chunks handed to
  a sink, read off the trace.\<close>

fun settles_action :: "handle \<Rightarrow> action \<Rightarrow> bool" where
  "settles_action h (Resolve h' v) = (h' = h)"
| "settles_action h (Reject h' e) = (h' = h)"
| "settles_action h _ = False"

definition outcomes :: "handle \<Rightarrow> bridge \<Rightarrow> action list" where
  "outcomes h s = filter (settles_action h) (trace s)"

fun chunk_action :: "handle \<Rightarrow> action \<Rightarrow> bool" where
  "chunk_action h (OnChunk h' v) = (h' = h)"
| "chunk_action h _ = False"

definition chunks :: "handle \<Rightarrow> bridge \<Rightarrow> action list" where
  "chunks h s = filter (chunk_action h) (trace s)"

fun is_write :: "action \<Rightarrow> bool" where
  "is_write (StdinWrite m) = True"
| "is_write _ = False"

definition writes :: "bridge \<Rightarrow> action list" where
  "writes s = filter is_write (trace s)"

fun is_send_call :: "event \<Rightarrow> bool" where
  "is_send_call (CallSend request ident now) = True"
| "is_send_call (CallSendStreaming request ident now) = True"
| "is_send_call _ = False"

section \<open>Further observations\<close>

text \<open>The calls of any promise's \<^verbatim>\<open>resolve\<close> or \<^verbatim>\<open>reject\<close>, the \<^verbatim>\<open>'log'\<close> events, and
  the promise or sink an action calls.\<close>

fun is_settle :: "action \<Rightarrow> bool" where
  "is_settle (Resolve h v) = True"
| "is_settle (Reject h e) = True"
| "is_settle _ = False"

fun is_log :: "action \<Rightarrow> bool" where
  "is_log (EmitLog x) = True"
| "is_log _ = False"

fun ahandle :: "action \<Rightarrow> handle option" where
  "ahandle (Resolve h v) = Some h"
| "ahandle (Reject h e) = Some h"
| "ahandle (OnChunk h v) = Some h"
| "ahandle _ = None"

text \<open>The object that \<^verbatim>\<open>send\<close> and \<^verbatim>\<open>sendStreaming\<close> serialise,
  \<^verbatim>\<open>{ ...request, id, timestamp }\<close>, and the chunk that a session gets for a message of
  status "success", \<^verbatim>\<open>{ type: 'done', data: response.data }\<close>.\<close>

definition outbound :: "(string \<times> jsval) list \<Rightarrow> string \<Rightarrow> string \<Rightarrow> jsval" where
  "outbound request ident now =
     JObj (AList.update ''timestamp'' (JStr now) (AList.update ''id'' (JStr ident) request))"

definition done_chunk :: "jsval \<Rightarrow> jsval" where
  "done_chunk response = JObj [(''type'', JStr ''done''), (''data'', js_prop response ''data'')]"

text \<open>Whether a handler acts on a response with the given id; whether an event is a
  call of \<^verbatim>\<open>start()\<close>.\<close>

fun listens_for :: "listener \<Rightarrow> jsval \<Rightarrow> bool" where
  "listens_for (ReadyHandler h) v = (v = JStr ''ready'')"
| "listens_for (StreamHandler h ident) v = (v = JStr ident)"

fun is_start :: "event \<Rightarrow> bool" where
  "is_start (CallStart x) = True"
| "is_start _ = False"

text \<open>Whether an event is a message that carries the given id, and whether it is a call
  of \<^verbatim>\<open>send\<close> under the given id.\<close>

fun answers :: "string \<Rightarrow> event \<Rightarrow> bool" where
  "answers i (Line line (Some r)) = (get_prop r ''id'' = Inr (JStr i))"
| "answers i _ = False"

fun sends_id :: "string \<Rightarrow> event \<Rightarrow> bool" where
  "sends_id i (CallSend request ident now) = (ident = i)"
| "sends_id i _ = False"

text \<open>The statements of \<^verbatim>\<open>handleResponse\<close> after the emit, and the body of the loop
  of \<^verbatim>\<open>rejectAllPending\<close>, named for the proofs.\<close>

definition respond_pending :: "jsval \<Rightarrow> bridge \<Rightarrow> js_error option \<times> bridge" where
  "respond_pending response s1 =
     (case get_prop response ''id'' of
        Inl e \<Rightarrow> (Some e, s1)
      | Inr i \<Rightarrow>
          (case pending_get s1 i of
             None \<Rightarrow> (None, s1)
           | Some p \<Rightarrow>
               if js_prop response ''status'' \<noteq> JStr ''streaming'' then
                 (let s2 = pending_delete i (clearTimeout (timeout p) s1)
                  in if js_prop response ''status'' = JStr ''error''
                     then (None, reject (promise p) (Error (error_message response)) s2)
                     else (None, resolve (promise p) (js_prop response ''data'') s2))
               else (None, s1)))"

definition sweep_entry :: "js_error \<Rightarrow> string \<times> pending_request \<Rightarrow> bridge \<Rightarrow> bridge" where
  "sweep_entry error = (\<lambda>(ident, p) s'. reject (promise p) error (clearTimeout (timeout p) s'))"

section \<open>Invariants\<close>

text \<open>
  What the state holds of one handle \<open>h\<close>: its armed timers, its registered listeners and
  the entries of \<open>pending\<close> that name it.
\<close>

definition htimers :: "handle \<Rightarrow> bridge \<Rightarrow> timer list" where
  "htimers h s = filter (\<lambda>t. thandle t = h) (timers s)"

definition hlisteners :: "handle \<Rightarrow> bridge \<Rightarrow> listener list" where
  "hlisteners h s = filter (\<lambda>l. lhandle l = h) (listeners s)"

definition refers :: "handle \<Rightarrow> string \<times> pending_request \<Rightarrow> bool" where
  "refers h e = (promise (snd e) = h \<or> thandle (timeout (snd e)) = h)"

definition hpending :: "handle \<Rightarrow> bridge \<Rightarrow> (string \<times> pending_request) list" where
  "hpending h s = filter (refers h) (pending s)"

text \<open>
  A handle is dead when nothing in the state names it any more, and settled when it is
  dead after exactly one call of its \<^verbatim>\<open>resolve\<close> or \<^verbatim>\<open>reject\<close>. A unary request is
  live while its timer is armed and nothing has settled it; its entry may be gone (the
  timer of another request with the same id deletes it). A streaming session is live in
  the same way, with its handler in place of the entry.
\<close>

definition dead :: "handle \<Rightarrow> bridge \<Rightarrow> bool" where
  "dead h s = (h < next_handle s \<and> htimers h s = [] \<and> hlisteners h s = [] \<and> hpending h s = [])"

definition settled :: "handle \<Rightarrow> bridge \<Rightarrow> bool" where
  "settled h s = (length (outcomes h s) = 1 \<and> dead h s)"

definition live_req :: "handle \<Rightarrow> string \<Rightarrow> bridge \<Rightarrow> bool" where
  "live_req h i s =
     (h < next_handle s \<and> outcomes h s = [] \<and> htimers h s = [RequestTimer h i]
      \<and> hlisteners h s = []
      \<and> (hpending h s = [] \<or> hpending h s = [(i, \<lparr>promise = h, timeout = RequestTimer h i\<rparr>)]))"

definition live_str :: "handle \<Rightarrow> string \<Rightarrow> bridge \<Rightarrow> bool" where
  "live_str h i s =
     (h < next_handle s \<and> outcomes h s = [] \<and> htimers h s = [StreamingTimer h i]
      \<and> hpending h s = []
      \<and> (hlisteners h s = [] \<or> hlisteners h s = [StreamHandler h i]))"

text \<open>\<open>frame h s s'\<close>: going from \<open>s\<close> to \<open>s'\<close> did not touch what belongs to \<open>h\<close>, except
  that entries of \<open>pending\<close> may have been deleted.\<close>

definition frame :: "handle \<Rightarrow> bridge \<Rightarrow> bridge \<Rightarrow> bool" where
  "frame h s s' =
     (next_handle s \<le> next_handle s' \<and> htimers h s' = htimers h s
      \<and> hlisteners h s' = hlisteners h s
      \<and> set (hpending h s') \<subseteq> set (hpending h s)
      \<and> length (hpending h s') \<le> length (hpending h s)
      \<and> outcomes h s' = outcomes h s \<and> chunks h s' = chunks h s)"

text \<open>Handles from \<open>next_handle\<close> on have not been used, and every entry of \<open>pending\<close>
  belongs to a live request.\<close>

definition unused :: "handle \<Rightarrow> bridge \<Rightarrow> bool" where
  "unused h s = (htimers h s = [] \<and> hlisteners h s = [] \<and> hpending h s = []
                 \<and> outcomes h s = [] \<and> chunks h s = [])"

definition fresh_handles :: "bridge \<Rightarrow> bool" where
  "fresh_handles s = (\<forall>h. next_handle s \<le> h \<longrightarrow> unused h s)"

definition pend_inv :: "bridge \<Rightarrow> bool" where
  "pend_inv s = list_all (\<lambda>(k, p). live_req (promise p) k s) (pending s)"

text \<open>\<open>same_io s s'\<close>: the line reader and the process are as they were. A ready bridge
  has a line reader, and a line reader comes with a process. The gate is closed when the
  bridge is not ready and no handler of \<^verbatim>\<open>waitForReady\<close> is registered.\<close>

fun is_ready_handler :: "listener \<Rightarrow> bool" where
  "is_ready_handler (ReadyHandler h) = True"
| "is_ready_handler (StreamHandler h ident) = False"

definition same_io :: "bridge \<Rightarrow> bridge \<Rightarrow> bool" where
  "same_io s s' = (readline s' = readline s \<and> process s' = process s)"

definition ready_inv :: "bridge \<Rightarrow> bool" where
  "ready_inv s = ((ready s \<longrightarrow> readline s \<noteq> None) \<and> (readline s \<noteq> None \<longrightarrow> process s \<noteq> None))"

definition closed_gate :: "bridge \<Rightarrow> bool" where
  "closed_gate s = (\<not> ready s \<and> list_all (\<lambda>l. \<not> is_ready_handler l) (listeners s))"

section \<open>Streams of messages\<close>

text \<open>A message of status "streaming" for the given id that is not the last one, and one
  that is the last one: its data is an object whose \<^verbatim>\<open>type\<close> is "done".\<close>

definition is_chunk :: "string \<Rightarrow> jsval \<Rightarrow> bool" where
  "is_chunk ident r =
     (get_prop r ''id'' = Inr (JStr ident) \<and> js_prop r ''status'' = JStr ''streaming''
      \<and> opt_prop (js_prop r ''data'') ''type'' \<noteq> JStr ''done'')"

definition is_done :: "string \<Rightarrow> jsval \<Rightarrow> bool" where
  "is_done ident r =
     (get_prop r ''id'' = Inr (JStr ident) \<and> js_prop r ''status'' = JStr ''streaming''
      \<and> opt_prop (js_prop r ''data'') ''type'' = JStr ''done'')"

text \<open>The lines of a list of messages, handled in order.\<close>

definition feed :: "jsval list \<Rightarrow> bridge \<Rightarrow> bridge" where
  "feed rs s = fold (\<lambda>r. on_line [] (Some r)) rs s"

text \<open>A streaming session is open while it is live with its handler registered; a unary
  request is held while it is live with its entry in \<open>pending\<close>.\<close>

definition session_open :: "handle \<Rightarrow> string \<Rightarrow> bridge \<Rightarrow> bool" where
  "session_open h i s = (live_str h i s \<and> hlisteners h s = [StreamHandler h i])"

definition held :: "handle \<Rightarrow> string \<Rightarrow> bridge \<Rightarrow> bool" where
  "held h i s = (live_req h i s
      \<and> map_of (pending s) i = Some \<lparr>promise = h, timeout = RequestTimer h i\<rparr>)"

text \<open>The timers of the unary requests sent under one id. A request is the sole one under
  its id when it is held and no other request timer for that id is armed.\<close>

fun req_timer_of :: "string \<Rightarrow> timer \<Rightarrow> bool" where
  "req_timer_of i (RequestTimer h k) = (k = i)"
| "req_timer_of i _ = False"

definition sole :: "handle \<Rightarrow> string \<Rightarrow> bridge \<Rightarrow> bool" where
  "sole h i s = (held h i s
      \<and> list_all (\<lambda>t. req_timer_of i t \<longrightarrow> t = RequestTimer h i) (timers s))"

section \<open>Example values\<close>

text \<open>The worker's ready line and its parsed value; a bridge started on an engine
  directory whose files exist, after that line; a worker's error message with the given
  id, code, details and message.\<close>

definition ready_text :: string where
  "ready_text = ''{\"id\":\"ready\",\"status\":\"success\"}''"

definition ready_line :: jsval where
  "ready_line = JObj [(''id'', JStr ''ready''), (''status'', JStr ''success'')]"

definition booted :: bridge where
  "booted = run [CallStart (\<lambda>p. True), Line ready_text (Some ready_line)]
              (new_bridge None ''/opt/engine'')"

definition worker_error :: "string \<Rightarrow> string \<Rightarrow> jsval \<Rightarrow> string \<Rightarrow> jsval" where
  "worker_error ident code details message =
     JObj [(''id'', JStr ident), (''status'', JStr ''error''),
           (''error'', JObj [(''code'', JStr code), (''message'', JStr message),
                             (''details'', details)])]"

section \<open>Lemmas\<close>

subsection \<open>What does not touch a handle\<close>

text \<open>A frame is reflexive and transitive, and it keeps a dead, settled or live handle
  as it is. Each primitive is a frame for every handle other than its own.\<close>

lemmas view_defs = htimers_def hlisteners_def hpending_def outcomes_def chunks_def

lemma frame_refl [simp]: "frame h s s"
  by (simp add: frame_def)

lemma frame_trans: "frame h s s' \<Longrightarrow> frame h s' s'' \<Longrightarrow> frame h s s''"
  unfolding frame_def by (metis order_trans)

lemma frame_dead: "frame h s s' \<Longrightarrow> dead h s \<Longrightarrow> dead h s'"
  by (auto simp: frame_def dead_def)

lemma frame_settled: "frame h s s' \<Longrightarrow> settled h s \<Longrightarrow> settled h s'"
  by (auto simp: settled_def frame_dead) (simp add: frame_def)

lemma short_sub:
  assumes "set ys \<subseteq> {e}" "length ys \<le> Suc 0"
  shows "ys = [] \<or> ys = [e]"
  using assms by (cases ys) auto

lemma frame_live_req: "frame h s s' \<Longrightarrow> live_req h i s \<Longrightarrow> live_req h i s'"
  unfolding frame_def live_req_def
  by (elim conjE disjE) (auto dest: short_sub)

lemma frame_live_str: "frame h s s' \<Longrightarrow> live_str h i s \<Longrightarrow> live_str h i s'"
  unfolding frame_def live_str_def by auto

lemma settles_action_None: "ahandle a \<noteq> Some h \<Longrightarrow> \<not> settles_action h a"
  by (cases a) auto

lemma chunk_action_None: "ahandle a \<noteq> Some h \<Longrightarrow> \<not> chunk_action h a"
  by (cases a) auto

lemma frame_act: "ahandle a \<noteq> Some h \<Longrightarrow> frame h s (act a s)"
  by (simp add: frame_def act_def view_defs settles_action_None chunk_action_None)

lemma frame_setTimeout: "thandle t \<noteq> h \<Longrightarrow> frame h s (setTimeout t ms s)"
  by (simp add: frame_def act_def setTimeout_def view_defs)

lemma filter_removeAll_other: "\<not> P x \<Longrightarrow> filter P (removeAll x xs) = filter P xs"
  by (induction xs) auto

lemma filter_remove1_other: "\<not> P x \<Longrightarrow> filter P (remove1 x xs) = filter P xs"
  by (induction xs) auto

lemma frame_clearTimeout: "thandle t \<noteq> h \<Longrightarrow> frame h s (clearTimeout t s)"
  by (simp add: frame_def act_def clearTimeout_def view_defs filter_removeAll_other)

lemma frame_on_response: "lhandle l \<noteq> h \<Longrightarrow> frame h s (on_response l s)"
  by (simp add: frame_def act_def on_response_def view_defs)

lemma frame_removeListener: "lhandle l \<noteq> h \<Longrightarrow> frame h s (removeListener l s)"
  by (simp add: frame_def act_def removeListener_def view_defs filter_remove1_other flip: rev_filter)

lemma filter_update_other:
  "\<not> P (k, v) \<Longrightarrow> set (filter P (AList.update k v xs)) \<subseteq> set (filter P xs)
     \<and> length (filter P (AList.update k v xs)) \<le> length (filter P xs)"
  by (induction xs) auto

lemma frame_pending_set: "\<not> refers h (k, p) \<Longrightarrow> frame h s (pending_set k p s)"
  using filter_update_other [of "refers h" k p "pending s"]
  by (simp add: frame_def act_def pending_set_def view_defs)

lemma length_filter_conj_le: "length (filter (\<lambda>x. Q x \<and> P x) xs) \<le> length (filter P xs)"
  by (induction xs) auto

lemma frame_pending_delete: "frame h s (pending_delete v s)"
  by (cases v) (auto simp: frame_def act_def view_defs AList.delete_eq length_filter_conj_le)

lemma frame_resolve: "h' \<noteq> h \<Longrightarrow> frame h s (resolve h' v s)"
  by (simp add: resolve_def frame_act)

lemma frame_reject: "h' \<noteq> h \<Longrightarrow> frame h s (reject h' e s)"
  by (simp add: reject_def frame_act)

lemma frame_onChunk: "h' \<noteq> h \<Longrightarrow> frame h s (onChunk h' v s)"
  by (simp add: onChunk_def frame_act)

lemma frame_stdin_write: "frame h s (stdin_write m s)"
  by (simp add: stdin_write_def frame_act)

lemma frame_emit_log: "frame h s (emit_log m s)"
  by (simp add: emit_log_def frame_act)

lemma frame_kill: "frame h s (kill s)"
  by (auto simp: kill_def frame_def act_def view_defs split: option.splits)

lemma frame_readline_close: "frame h s (readline_close s)"
  by (auto simp: readline_close_def frame_def act_def view_defs split: option.splits)

lemma frame_fields [simp]:
  "frame h s (s\<lparr>ready := b\<rparr>)"
  "frame h s (s\<lparr>process := p\<rparr>)"
  "frame h s (s\<lparr>readline := r\<rparr>)"
  "frame h s (s\<lparr>error_listeners := n\<rparr>)"
  by (simp_all add: frame_def view_defs)

lemma frame_next: "frame h s s' \<Longrightarrow> next_handle s' \<le> n \<Longrightarrow> frame h s (s'\<lparr>next_handle := n\<rparr>)"
  by (simp add: frame_def view_defs)

lemma frame_fields_after:
  "frame h s s' \<Longrightarrow> frame h s (s'\<lparr>ready := b\<rparr>)"
  "frame h s s' \<Longrightarrow> frame h s (s'\<lparr>process := p\<rparr>)"
  "frame h s s' \<Longrightarrow> frame h s (s'\<lparr>readline := r\<rparr>)"
  "frame h s s' \<Longrightarrow> frame h s (s'\<lparr>error_listeners := n\<rparr>)"
  by (simp_all add: frame_def view_defs)

lemmas frameI =
  frame_refl
  frame_fields_after
  frame_trans [OF _ frame_act]
  frame_trans [OF _ frame_setTimeout]
  frame_trans [OF _ frame_clearTimeout]
  frame_trans [OF _ frame_on_response]
  frame_trans [OF _ frame_removeListener]
  frame_trans [OF _ frame_pending_set]
  frame_trans [OF _ frame_pending_delete]
  frame_trans [OF _ frame_resolve]
  frame_trans [OF _ frame_reject]
  frame_trans [OF _ frame_onChunk]
  frame_trans [OF _ frame_stdin_write]
  frame_trans [OF _ frame_emit_log]
  frame_trans [OF _ frame_kill]
  frame_trans [OF _ frame_readline_close]

subsection \<open>Handlers, the emit and the sweep, for other handles\<close>

lemma frame_call_listener:
  "lhandle l \<noteq> h \<Longrightarrow> frame h s (snd (call_listener l r s))"
  by (cases l) (auto simp: Let_def split: sum.splits intro!: frameI)

lemma frame_emit_response:
  "\<forall>l\<in>set ls. lhandle l \<noteq> h \<Longrightarrow> frame h s (snd (emit_response ls r s))"
proof (induction ls arbitrary: s)
  case Nil
  then show ?case by simp
next
  case (Cons l ls)
  obtain x s1 where c: "call_listener l r s = (x, s1)" by (cases "call_listener l r s")
  from Cons.prems have "frame h s (snd (call_listener l r s))"
    by (simp add: frame_call_listener)
  with c have f1: "frame h s s1" by simp
  show ?case
  proof (cases x)
    case None
    from Cons.IH [of s1] Cons.prems have "frame h s1 (snd (emit_response ls r s1))" by simp
    with f1 c None show ?thesis by (simp add: frame_trans)
  next
    case (Some e)
    with f1 c show ?thesis by simp
  qed
qed

lemma frame_emit_listeners:
  assumes "filter (\<lambda>l. lhandle l = h) ls = []"
  shows "frame h s (snd (emit_response ls r s))"
  using assms by (intro frame_emit_response) (simp add: filter_empty_conv)

lemma hlisteners_empty: "hlisteners h s = [] \<Longrightarrow> \<forall>l\<in>set (listeners s). lhandle l \<noteq> h"
  by (auto simp: hlisteners_def filter_empty_conv)

lemma hpending_empty: "hpending h s = [] \<Longrightarrow> \<forall>e\<in>set (pending s). \<not> refers h e"
  by (auto simp: hpending_def filter_empty_conv)

lemma htimers_empty: "htimers h s = [] \<Longrightarrow> \<forall>t\<in>set (timers s). thandle t \<noteq> h"
  by (auto simp: htimers_def filter_empty_conv)

lemma call_listener_pending [simp]: "pending (snd (call_listener l r s)) = pending s"
  by (cases l) (auto simp: Let_def resolve_def reject_def onChunk_def removeListener_def
      clearTimeout_def act_def split: sum.splits)

lemma emit_response_pending [simp]: "pending (snd (emit_response ls r s)) = pending s"
proof (induction ls arbitrary: s)
  case Nil
  then show ?case by simp
next
  case (Cons l ls)
  obtain x s1 where c: "call_listener l r s = (x, s1)" by (cases "call_listener l r s")
  have "pending s1 = pending s" using call_listener_pending [of l r s] c by simp
  with c Cons.IH [of s1] show ?case by (cases x) simp_all
qed

lemma handleResponse_split:
  "handleResponse r s =
     (case emit_response (listeners s) r s of
        (Some e, s1) \<Rightarrow> (Some e, s1)
      | (None, s1) \<Rightarrow> respond_pending r s1)"
  by (simp add: handleResponse_def respond_pending_def split: prod.splits option.splits)

lemma pending_get_in: "pending_get s i = Some p \<Longrightarrow> \<exists>k. i = JStr k \<and> (k, p) \<in> set (pending s)"
  by (cases i) (auto dest: map_of_SomeD)

lemma frame_respond_pending:
  "hpending h s = [] \<Longrightarrow> frame h s (snd (respond_pending r s))"
  by (auto simp: respond_pending_def Let_def refers_def split: sum.splits option.splits
      dest!: pending_get_in hpending_empty intro!: frameI)

lemma frame_handleResponse:
  assumes "hlisteners h s = []" "hpending h s = []"
  shows "frame h s (snd (handleResponse r s))"
proof -
  obtain x s1 where e: "emit_response (listeners s) r s = (x, s1)"
    by (cases "emit_response (listeners s) r s")
  have f1: "frame h s s1"
    using frame_emit_response [OF hlisteners_empty [OF assms(1)], where r = r and s = s] e by simp
  have p1: "pending s1 = pending s" using emit_response_pending [of "listeners s" r s] e by simp
  then have "hpending h s1 = []" using assms(2) by (simp add: hpending_def)
  then have "frame h s1 (snd (respond_pending r s1))" by (rule frame_respond_pending)
  with f1 e show ?thesis
    by (cases x) (auto simp: handleResponse_split intro: frame_trans)
qed

lemma rejectAllPending_sweep:
  "rejectAllPending error s = pending_clear (fold (sweep_entry error) (pending s) s)"
  by (simp add: rejectAllPending_def sweep_entry_def)

lemma frame_sweep_entry: "\<not> refers h e \<Longrightarrow> frame h s (sweep_entry error e s)"
  by (cases e) (auto simp: sweep_entry_def refers_def intro!: frameI)

lemma frame_fold_sweep:
  "\<forall>e\<in>set ps. \<not> refers h e \<Longrightarrow> frame h s (fold (sweep_entry error) ps s)"
proof (induction ps arbitrary: s)
  case Nil
  then show ?case by simp
next
  case (Cons e ps)
  have "frame h s (sweep_entry error e s)" using Cons.prems by (simp add: frame_sweep_entry)
  moreover have "frame h (sweep_entry error e s) (fold (sweep_entry error) ps (sweep_entry error e s))"
    using Cons.prems by (intro Cons.IH) simp
  ultimately show ?case by (auto intro: frame_trans)
qed

lemma frame_pending_clear: "frame h s (pending_clear s)"
  by (simp add: pending_clear_def frame_def act_def view_defs)

lemma frame_rejectAllPending:
  "hpending h s = [] \<Longrightarrow> frame h s (rejectAllPending error s)"
  unfolding rejectAllPending_sweep
  by (rule frame_trans [OF frame_fold_sweep frame_pending_clear]) (rule hpending_empty)

subsection \<open>Calls and timers, for other handles\<close>

lemma frame_send:
  "h \<noteq> next_handle s \<Longrightarrow> send request ident now s = Inr (h', s') \<Longrightarrow> frame h s s'"
  by (auto simp: send_def Let_def refers_def split: if_splits
      intro!: frameI frame_next)

lemma frame_sendStreaming:
  "h \<noteq> next_handle s \<Longrightarrow> sendStreaming request ident now s = Inr (h', s') \<Longrightarrow> frame h s s'"
  by (auto simp: sendStreaming_def Let_def split: if_splits
      intro!: frameI frame_next)

lemma frame_waitForReady:
  "h \<noteq> next_handle s \<Longrightarrow> frame h s (snd (waitForReady s))"
  by (auto simp: waitForReady_def Let_def intro!: frameI frame_next)

lemma frame_start:
  "h \<noteq> next_handle s \<Longrightarrow> start existsSync s = Inr (h', s') \<Longrightarrow> frame h s s'"
proof -
  assume h: "h \<noteq> next_handle s" and st: "start existsSync s = Inr (h', s')"
  let ?venv = "path_join (enginePath s) [''.venv'', ''bin'', ''python'']"
  let ?exe = "if existsSync ?venv then ?venv else ''python3''"
  let ?s0 = "act (Spawn ?exe (path_join (enginePath s) [''main.py''])) (s\<lparr>process := Some Running, readline := Some Open\<rparr>)"
  have f0: "frame h s ?s0" by (intro frameI) simp
  have n0: "next_handle ?s0 = next_handle s" by (simp add: act_def)
  from st have "s' = snd (waitForReady ?s0)"
    by (auto simp: start_def Let_def split: if_splits)
  moreover have "frame h ?s0 (snd (waitForReady ?s0))"
    using h n0 by (intro frame_waitForReady) simp
  ultimately show ?thesis using f0 by (auto intro: frame_trans)
qed

lemma frame_timer_callback:
  "thandle t \<noteq> h \<Longrightarrow> frame h s (timer_callback t s)"
  by (cases t) (auto simp: startup_timeout_def request_timeout_def streaming_timeout_def
      simp del: pending_delete.simps intro!: frameI)

lemma frame_drop_timer:
  "thandle t \<noteq> h \<Longrightarrow> frame h s (s\<lparr>timers := removeAll t (timers s)\<rparr>)"
  by (simp add: frame_def view_defs filter_removeAll_other)

lemma frame_fire:
  "thandle t \<noteq> h \<Longrightarrow> frame h s (fire t s)"
  by (auto simp: fire_def intro: frame_trans [OF frame_drop_timer frame_timer_callback])

lemma frame_on_line:
  "hlisteners h s = [] \<Longrightarrow> hpending h s = [] \<Longrightarrow> frame h s (on_line line parsed s)"
proof -
  assume a: "hlisteners h s = []" "hpending h s = []"
  show ?thesis
  proof (cases parsed)
    case None
    then show ?thesis by (simp add: on_line_def frame_emit_log)
  next
    case (Some r)
    obtain x s1 where hr: "handleResponse r s = (x, s1)" by (cases "handleResponse r s")
    have "frame h s s1" using frame_handleResponse [OF a, of r] hr by simp
    with Some hr show ?thesis
      by (cases x) (auto simp: on_line_def intro: frame_trans [OF _ frame_emit_log])
  qed
qed

lemma frame_on_exit:
  "hpending h s = [] \<Longrightarrow> frame h s (on_exit code s)"
proof -
  assume a: "hpending h s = []"
  have f: "frame h s (act (EmitExit code) s)" by (simp add: frame_act)
  have "hpending h (act (EmitExit code) s) = []" using a by (simp add: hpending_def act_def)
  then show ?thesis unfolding on_exit_def
    by (intro frame_trans [OF f] frame_rejectAllPending)
qed

lemma frame_on_error:
  "hpending h s = [] \<Longrightarrow> frame h s (snd (on_error error s))"
proof -
  assume a: "hpending h s = []"
  have f: "frame h s (act (EmitError error) s)" by (simp add: frame_act)
  have "hpending h (act (EmitError error) s) = []" using a by (simp add: hpending_def act_def)
  then have "frame h s (rejectAllPending error (act (EmitError error) s))"
    by (intro frame_trans [OF f] frame_rejectAllPending)
  then show ?thesis by (simp add: on_error_def)
qed

lemma frame_stop:
  "hpending h s = [] \<Longrightarrow> frame h s (stop s)"
proof -
  assume a: "hpending h s = []"
  let ?s1 = "readline_close (kill (s\<lparr>ready := False\<rparr>))"
  have f: "frame h s ?s1" by (intro frameI)
  have "pending ?s1 = pending s"
    by (simp add: readline_close_def kill_def act_def split: option.splits)
  then have "hpending h ?s1 = []" using a by (simp add: hpending_def)
  then show ?thesis unfolding stop_def
    by (intro frame_trans [OF f] frame_rejectAllPending)
qed

subsection \<open>A handle that nothing names is left alone by every event\<close>

lemma next_handle_calls:
  "send request ident now s = Inr (h', s') \<Longrightarrow> h' = next_handle s \<and> next_handle s' = Suc (next_handle s)"
  "sendStreaming request ident now s = Inr (h', s') \<Longrightarrow> h' = next_handle s \<and> next_handle s' = Suc (next_handle s)"
  "start existsSync s = Inr (h', s') \<Longrightarrow> h' = next_handle s \<and> next_handle s' = Suc (next_handle s)"
  by (auto simp: send_def sendStreaming_def start_def waitForReady_def Let_def stdin_write_def
      pending_set_def on_response_def setTimeout_def act_def split: if_splits)

lemma unref_step:
  assumes t: "htimers h s = []" and l: "hlisteners h s = []" and p: "hpending h s = []"
    and n: "h < next_handle s \<or> next_handle (step ev s) \<le> h"
  shows "frame h s (step ev s)"
proof (cases ev)
  case (CallStart x)
  show ?thesis
  proof (cases "start x s")
    case (Inl e)
    then show ?thesis using CallStart by simp
  next
    case (Inr r)
    then obtain h' s' where r: "start x s = Inr (h', s')" by (cases r) auto
    then have "next_handle s' = Suc (next_handle s)" using next_handle_calls(3) by blast
    then have "h \<noteq> next_handle s" using n r CallStart by auto
    then show ?thesis using r CallStart by (auto intro: frame_start)
  qed
next
  case (CallSend a b c)
  show ?thesis
  proof (cases "send a b c s")
    case (Inl e)
    then show ?thesis using CallSend by simp
  next
    case (Inr r)
    then obtain h' s' where r: "send a b c s = Inr (h', s')" by (cases r) auto
    then have "next_handle s' = Suc (next_handle s)" using next_handle_calls(1) by blast
    then have "h \<noteq> next_handle s" using n r CallSend by auto
    then show ?thesis using r CallSend by (auto intro: frame_send)
  qed
next
  case (CallSendStreaming a b c)
  show ?thesis
  proof (cases "sendStreaming a b c s")
    case (Inl e)
    then show ?thesis using CallSendStreaming by simp
  next
    case (Inr r)
    then obtain h' s' where r: "sendStreaming a b c s = Inr (h', s')" by (cases r) auto
    then have "next_handle s' = Suc (next_handle s)" using next_handle_calls(2) by blast
    then have "h \<noteq> next_handle s" using n r CallSendStreaming by auto
    then show ?thesis using r CallSendStreaming by (auto intro: frame_sendStreaming)
  qed
next
  case CallStop
  then show ?thesis using p by (simp add: frame_stop)
next
  case ListenError
  then show ?thesis by simp
next
  case (Line ln parsed)
  then show ?thesis using l p by (simp add: frame_on_line)
next
  case (Stderr x)
  then show ?thesis by (simp add: on_stderr_def frame_emit_log)
next
  case (Exit c)
  then show ?thesis using p by (simp add: frame_on_exit)
next
  case (ProcError e)
  then show ?thesis using p by (simp add: frame_on_error)
next
  case (Timeout tm)
  show ?thesis
  proof (cases "tm \<in> set (timers s)")
    case True
    then have "thandle tm \<noteq> h" using htimers_empty [OF t] by auto
    then show ?thesis using Timeout by (simp add: frame_fire)
  next
    case False
    then show ?thesis using Timeout by (simp add: fire_def)
  qed
qed

lemma dead_step: "dead h s \<Longrightarrow> frame h s (step ev s)"
  by (rule unref_step) (simp_all add: dead_def)

lemma dead_run: "dead h s \<Longrightarrow> frame h s (run evs s)"
proof (induction evs arbitrary: s)
  case Nil
  then show ?case by (simp add: run_def)
next
  case (Cons ev evs)
  have f1: "frame h s (step ev s)" using Cons.prems by (rule dead_step)
  then have "dead h (step ev s)" using Cons.prems by (rule frame_dead)
  then have "frame h (step ev s) (run evs (step ev s))" by (rule Cons.IH)
  with f1 show ?case by (auto simp: run_def intro: frame_trans)
qed

subsection \<open>Effect of the primitives on the view of one handle\<close>

lemma view_act [simp]:
  "htimers h (act a s) = htimers h s"
  "hlisteners h (act a s) = hlisteners h s"
  "hpending h (act a s) = hpending h s"
  "next_handle (act a s) = next_handle s"
  "outcomes h (act a s) = outcomes h s @ filter (settles_action h) [a]"
  "chunks h (act a s) = chunks h s @ filter (chunk_action h) [a]"
  by (simp_all add: act_def view_defs)

lemma view_settle [simp]:
  "htimers h (resolve h' v s) = htimers h s"
  "hlisteners h (resolve h' v s) = hlisteners h s"
  "hpending h (resolve h' v s) = hpending h s"
  "next_handle (resolve h' v s) = next_handle s"
  "outcomes h (resolve h' v s) = outcomes h s @ (if h' = h then [Resolve h' v] else [])"
  "chunks h (resolve h' v s) = chunks h s"
  "htimers h (reject h' e s) = htimers h s"
  "hlisteners h (reject h' e s) = hlisteners h s"
  "hpending h (reject h' e s) = hpending h s"
  "next_handle (reject h' e s) = next_handle s"
  "outcomes h (reject h' e s) = outcomes h s @ (if h' = h then [Reject h' e] else [])"
  "chunks h (reject h' e s) = chunks h s"
  "htimers h (onChunk h' v s) = htimers h s"
  "hlisteners h (onChunk h' v s) = hlisteners h s"
  "hpending h (onChunk h' v s) = hpending h s"
  "next_handle (onChunk h' v s) = next_handle s"
  "outcomes h (onChunk h' v s) = outcomes h s"
  "chunks h (onChunk h' v s) = chunks h s @ (if h' = h then [OnChunk h' v] else [])"
  by (simp_all add: resolve_def reject_def onChunk_def)

lemma filter_removeAll_comm: "filter P (removeAll x xs) = removeAll x (filter P xs)"
  by (induction xs) auto

lemma filter_remove_last:
  "filter P (rev (remove1 l (rev xs))) = rev (remove1 l (rev (filter P xs)))"
proof -
  have "filter P (rev (remove1 l (rev xs))) = rev (filter P (remove1 l (rev xs)))"
    by (simp add: rev_filter)
  also have "\<dots> = rev (remove1 l (filter P (rev xs)))"
    by (simp add: filter_remove1)
  also have "\<dots> = rev (remove1 l (rev (filter P xs)))"
    by (simp add: rev_filter)
  finally show ?thesis .
qed

lemma view_clearTimeout [simp]:
  "htimers h (clearTimeout t s) = removeAll t (htimers h s)"
  "hlisteners h (clearTimeout t s) = hlisteners h s"
  "hpending h (clearTimeout t s) = hpending h s"
  "next_handle (clearTimeout t s) = next_handle s"
  "outcomes h (clearTimeout t s) = outcomes h s"
  "chunks h (clearTimeout t s) = chunks h s"
  by (simp_all add: clearTimeout_def) (simp_all add: view_defs filter_removeAll_comm)

lemma view_removeListener [simp]:
  "htimers h (removeListener l s) = htimers h s"
  "hlisteners h (removeListener l s) = rev (remove1 l (rev (hlisteners h s)))"
  "hpending h (removeListener l s) = hpending h s"
  "next_handle (removeListener l s) = next_handle s"
  "outcomes h (removeListener l s) = outcomes h s"
  "chunks h (removeListener l s) = chunks h s"
  by (simp_all add: removeListener_def) (simp_all add: view_defs filter_remove_last)

lemma view_pending_delete [simp]:
  "htimers h (pending_delete v s) = htimers h s"
  "hlisteners h (pending_delete v s) = hlisteners h s"
  "hpending h (pending_delete (JStr k) s) = AList.delete k (hpending h s)"
  "next_handle (pending_delete v s) = next_handle s"
  "outcomes h (pending_delete v s) = outcomes h s"
  "chunks h (pending_delete v s) = chunks h s"
  by (cases v; simp add: pending_delete.simps; simp add: view_defs AList.delete_eq conj_commute)+

declare pending_delete.simps [simp del]

lemma view_pending_clear [simp]:
  "htimers h (pending_clear s) = htimers h s"
  "hlisteners h (pending_clear s) = hlisteners h s"
  "hpending h (pending_clear s) = []"
  "next_handle (pending_clear s) = next_handle s"
  "outcomes h (pending_clear s) = outcomes h s"
  "chunks h (pending_clear s) = chunks h s"
  by (simp_all add: pending_clear_def) (simp_all add: view_defs)

lemma view_ready [simp]:
  "htimers h (s\<lparr>ready := b\<rparr>) = htimers h s"
  "hlisteners h (s\<lparr>ready := b\<rparr>) = hlisteners h s"
  "hpending h (s\<lparr>ready := b\<rparr>) = hpending h s"
  "outcomes h (s\<lparr>ready := b\<rparr>) = outcomes h s"
  "chunks h (s\<lparr>ready := b\<rparr>) = chunks h s"
  by (simp_all add: view_defs)

lemma view_drop_timer [simp]:
  "htimers h (s\<lparr>timers := removeAll t (timers s)\<rparr>) = removeAll t (htimers h s)"
  "hlisteners h (s\<lparr>timers := ts\<rparr>) = hlisteners h s"
  "hpending h (s\<lparr>timers := ts\<rparr>) = hpending h s"
  "outcomes h (s\<lparr>timers := ts\<rparr>) = outcomes h s"
  "chunks h (s\<lparr>timers := ts\<rparr>) = chunks h s"
  by (simp_all add: view_defs filter_removeAll_comm)

subsection \<open>A pending unary request\<close>

lemma settled_intro:
  "h < next_handle s \<Longrightarrow> htimers h s = [] \<Longrightarrow> hlisteners h s = [] \<Longrightarrow> hpending h s = []
   \<Longrightarrow> length (outcomes h s) = 1 \<Longrightarrow> settled h s"
  by (simp add: settled_def dead_def)

lemma hpending_mem: "(k, p) \<in> set (pending s) \<Longrightarrow> refers h (k, p) \<Longrightarrow> (k, p) \<in> set (hpending h s)"
  by (simp add: hpending_def)

lemma live_req_respond_pending:
  assumes "live_req h i s"
  shows "live_req h i (snd (respond_pending r s)) \<or> settled h (snd (respond_pending r s))"
proof (cases "get_prop r ''id''")
  case (Inl e)
  then show ?thesis using assms by (simp add: respond_pending_def)
next
  case (Inr v)
  show ?thesis
  proof (cases "pending_get s v")
    case None
    then show ?thesis using assms Inr by (simp add: respond_pending_def)
  next
    case (Some p)
    then obtain k where v: "v = JStr k" and mem: "(k, p) \<in> set (pending s)"
      using pending_get_in by blast
    show ?thesis
    proof (cases "refers h (k, p)")
      case False
      then have "frame h s (snd (respond_pending r s))"
        using Inr Some v
        by (auto simp: respond_pending_def Let_def refers_def simp del: pending_delete.simps
            intro!: frameI)
      then show ?thesis using assms by (auto intro: frame_live_req)
    next
      case True
      then have "(k, p) \<in> set (hpending h s)" using mem by (rule hpending_mem [rotated])
      then have hp: "hpending h s = [(i, \<lparr>promise = h, timeout = RequestTimer h i\<rparr>)]"
        and k: "k = i" and p: "p = \<lparr>promise = h, timeout = RequestTimer h i\<rparr>"
        using assms by (auto simp: live_req_def)
      show ?thesis
      proof (cases "js_prop r ''status'' = JStr ''streaming''")
        case True
        then show ?thesis using assms Inr Some by (simp add: respond_pending_def)
      next
        case False
        then have "settled h (snd (respond_pending r s))"
          using assms Inr Some v k p hp
          by (auto simp: respond_pending_def Let_def live_req_def intro!: settled_intro)
        then show ?thesis ..
      qed
    qed
  qed
qed

lemma live_req_handleResponse:
  assumes "live_req h i s"
  shows "live_req h i (snd (handleResponse r s)) \<or> settled h (snd (handleResponse r s))"
proof -
  obtain x s1 where e: "emit_response (listeners s) r s = (x, s1)"
    by (cases "emit_response (listeners s) r s")
  have "filter (\<lambda>l. lhandle l = h) (listeners s) = []"
    using assms by (simp add: live_req_def hlisteners_def)
  then have "frame h s (snd (emit_response (listeners s) r s))"
    by (rule frame_emit_listeners)
  then have "frame h s s1" using e by simp
  then have l1: "live_req h i s1" using assms by (rule frame_live_req)
  show ?thesis
  proof (cases x)
    case None
    then show ?thesis using e live_req_respond_pending [OF l1, of r]
      by (simp add: handleResponse_split)
  next
    case (Some a)
    then show ?thesis using e l1 by (simp add: handleResponse_split)
  qed
qed

lemma sweep_entry_view [simp]:
  "htimers h (sweep_entry error (k, p) s) = removeAll (timeout p) (htimers h s)"
  "hlisteners h (sweep_entry error (k, p) s) = hlisteners h s"
  "hpending h (sweep_entry error (k, p) s) = hpending h s"
  "next_handle (sweep_entry error (k, p) s) = next_handle s"
  "outcomes h (sweep_entry error (k, p) s) = outcomes h s @ (if promise p = h then [Reject (promise p) error] else [])"
  by (simp_all add: sweep_entry_def)

lemma fold_sweep_own:
  assumes "filter (refers h) ps = [(i, \<lparr>promise = h, timeout = RequestTimer h i\<rparr>)]"
    and "htimers h s = [RequestTimer h i]" and "outcomes h s = []"
  shows "htimers h (fold (sweep_entry error) ps s) = []
       \<and> outcomes h (fold (sweep_entry error) ps s) = [Reject h error]"
  using assms
proof (induction ps arbitrary: s)
  case Nil
  then show ?case by simp
next
  case (Cons e ps)
  obtain k p where e: "e = (k, p)" by (cases e)
  show ?case
  proof (cases "refers h e")
    case True
    with Cons.prems(1) have own: "e = (i, \<lparr>promise = h, timeout = RequestTimer h i\<rparr>)"
      and rest: "filter (refers h) ps = []" by auto
    let ?s1 = "sweep_entry error e s"
    have v1: "htimers h ?s1 = []" "outcomes h ?s1 = [Reject h error]"
      using own Cons.prems by simp_all
    have "frame h ?s1 (fold (sweep_entry error) ps ?s1)"
      using rest by (intro frame_fold_sweep) (simp add: filter_empty_conv)
    then show ?thesis using v1 by (simp add: frame_def)
  next
    case False
    with Cons.prems(1) have rest: "filter (refers h) ps = [(i, \<lparr>promise = h, timeout = RequestTimer h i\<rparr>)]"
      by simp
    let ?s1 = "sweep_entry error e s"
    have "frame h s ?s1" using False by (rule frame_sweep_entry)
    then have "htimers h ?s1 = [RequestTimer h i]" "outcomes h ?s1 = []"
      using Cons.prems by (simp_all add: frame_def)
    from Cons.IH [OF rest this] show ?thesis by simp
  qed
qed

lemma fold_sweep_keeps:
  "hlisteners h (fold (sweep_entry error) ps s) = hlisteners h s
   \<and> next_handle (fold (sweep_entry error) ps s) = next_handle s"
proof (induction ps arbitrary: s)
  case Nil
  then show ?case by simp
next
  case (Cons e ps)
  obtain k p where e: "e = (k, p)" by (cases e)
  show ?case using Cons.IH [of "sweep_entry error e s"] e by simp
qed

lemma live_req_rejectAllPending:
  assumes "live_req h i s"
  shows "live_req h i (rejectAllPending error s) \<or> settled h (rejectAllPending error s)"
proof (cases "hpending h s = []")
  case True
  then have "frame h s (rejectAllPending error s)" by (rule frame_rejectAllPending)
  then show ?thesis using assms by (auto intro: frame_live_req)
next
  case False
  then have hp: "filter (refers h) (pending s) = [(i, \<lparr>promise = h, timeout = RequestTimer h i\<rparr>)]"
    using assms by (auto simp: live_req_def hpending_def)
  have a: "htimers h s = [RequestTimer h i]" "outcomes h s = []" "hlisteners h s = []" "h < next_handle s"
    using assms by (simp_all add: live_req_def)
  let ?s1 = "fold (sweep_entry error) (pending s) s"
  have "htimers h ?s1 = []" "outcomes h ?s1 = [Reject h error]"
    using fold_sweep_own [OF hp a(1) a(2), of error] by simp_all
  moreover have "hlisteners h ?s1 = []" "h < next_handle ?s1"
    using fold_sweep_keeps [of h error "pending s" s] a by simp_all
  ultimately have "settled h (rejectAllPending error s)"
    unfolding rejectAllPending_sweep by (intro settled_intro) simp_all
  then show ?thesis ..
qed

lemma live_req_fire_own:
  assumes "live_req h i s"
  shows "settled h (fire (RequestTimer h i) s)"
proof -
  have "RequestTimer h i \<in> set (htimers h s)" using assms by (simp add: live_req_def)
  then have "RequestTimer h i \<in> set (timers s)" by (simp add: htimers_def)
  then show ?thesis using assms
    by (auto simp: fire_def request_timeout_def live_req_def intro!: settled_intro)
qed

subsection \<open>An open streaming session\<close>

lemma live_str_call_own:
  assumes "live_str h i s"
  shows "live_str h i (snd (call_listener (StreamHandler h i) r s))
       \<or> settled h (snd (call_listener (StreamHandler h i) r s))"
proof (cases "get_prop r ''id''")
  case (Inl e)
  then show ?thesis using assms by simp
next
  case (Inr v)
  have a: "h < next_handle s" "outcomes h s = []" "htimers h s = [StreamingTimer h i]"
    "hpending h s = []" "hlisteners h s = [] \<or> hlisteners h s = [StreamHandler h i]"
    using assms by (simp_all add: live_str_def)
  show ?thesis
  proof (cases "v = JStr i")
    case False
    then show ?thesis using assms Inr by simp
  next
    case True
    consider (chunk) "js_prop r ''status'' = JStr ''streaming''"
        "opt_prop (js_prop r ''data'') ''type'' \<noteq> JStr ''done''"
      | (final) "js_prop r ''status'' = JStr ''streaming''"
        "opt_prop (js_prop r ''data'') ''type'' = JStr ''done''"
      | (err) "js_prop r ''status'' = JStr ''error''"
      | (succ) "js_prop r ''status'' = JStr ''success''"
      | (other) "js_prop r ''status'' \<noteq> JStr ''streaming''" "js_prop r ''status'' \<noteq> JStr ''error''"
        "js_prop r ''status'' \<noteq> JStr ''success''"
      by blast
    then show ?thesis
    proof cases
      case chunk
      then have "live_str h i (snd (call_listener (StreamHandler h i) r s))"
        using a Inr True by (auto simp: Let_def live_str_def)
      then show ?thesis ..
    next
      case final
      then have "settled h (snd (call_listener (StreamHandler h i) r s))"
        using a Inr True by (auto simp: Let_def intro!: settled_intro)
      then show ?thesis ..
    next
      case err
      then have "settled h (snd (call_listener (StreamHandler h i) r s))"
        using a Inr True by (auto simp: Let_def intro!: settled_intro)
      then show ?thesis ..
    next
      case succ
      then have "settled h (snd (call_listener (StreamHandler h i) r s))"
        using a Inr True by (auto simp: Let_def intro!: settled_intro)
      then show ?thesis ..
    next
      case other
      then show ?thesis using assms Inr True by simp
    qed
  qed
qed

lemma settled_emit_others:
  assumes "settled h s" "filter (\<lambda>l. lhandle l = h) ls = []"
  shows "settled h (snd (emit_response ls r s))"
  using frame_emit_listeners [OF assms(2)] assms(1) by (rule frame_settled)

lemma live_str_emit:
  assumes "live_str h i s"
    and "filter (\<lambda>l. lhandle l = h) ls = [] \<or> filter (\<lambda>l. lhandle l = h) ls = [StreamHandler h i]"
  shows "live_str h i (snd (emit_response ls r s)) \<or> settled h (snd (emit_response ls r s))"
  using assms
proof (induction ls arbitrary: s)
  case Nil
  then show ?case by simp
next
  case (Cons l ls)
  obtain x s1 where c: "call_listener l r s = (x, s1)" by (cases "call_listener l r s")
  show ?case
  proof (cases "lhandle l = h")
    case False
    then have "frame h s (snd (call_listener l r s))" by (rule frame_call_listener)
    then have l1: "live_str h i s1" using Cons.prems(1) c by (auto intro: frame_live_str)
    have "filter (\<lambda>l. lhandle l = h) ls = [] \<or> filter (\<lambda>l. lhandle l = h) ls = [StreamHandler h i]"
      using Cons.prems(2) False by simp
    from Cons.IH [OF l1 this] l1 c show ?thesis by (cases x) simp_all
  next
    case True
    with Cons.prems(2) have l: "l = StreamHandler h i" and rest: "filter (\<lambda>l. lhandle l = h) ls = []"
      by auto
    have own: "live_str h i s1 \<or> settled h s1"
      using live_str_call_own [OF Cons.prems(1), of r] l c by simp
    show ?thesis
    proof (cases x)
      case (Some e)
      then show ?thesis using own c by simp
    next
      case None
      from own show ?thesis
      proof
        assume "live_str h i s1"
        from Cons.IH [OF this] rest c None show ?thesis by simp
      next
        assume "settled h s1"
        then have "settled h (snd (emit_response ls r s1))" using rest by (rule settled_emit_others)
        then show ?thesis using c None by simp
      qed
    qed
  qed
qed

lemma live_str_handleResponse:
  assumes "live_str h i s"
  shows "live_str h i (snd (handleResponse r s)) \<or> settled h (snd (handleResponse r s))"
proof -
  obtain x s1 where e: "emit_response (listeners s) r s = (x, s1)"
    by (cases "emit_response (listeners s) r s")
  have "filter (\<lambda>l. lhandle l = h) (listeners s) = []
      \<or> filter (\<lambda>l. lhandle l = h) (listeners s) = [StreamHandler h i]"
    using assms by (simp add: live_str_def hlisteners_def)
  from live_str_emit [OF assms this, of r] e
  have s1: "live_str h i s1 \<or> settled h s1" by simp
  show ?thesis
  proof (cases x)
    case (Some a)
    then show ?thesis using e s1 by (simp add: handleResponse_split)
  next
    case None
    have hp: "hpending h s1 = []" using s1 by (auto simp: live_str_def settled_def dead_def)
    then have "frame h s1 (snd (respond_pending r s1))" by (rule frame_respond_pending)
    then have "live_str h i (snd (respond_pending r s1)) \<or> settled h (snd (respond_pending r s1))"
      using s1 by (auto intro: frame_live_str frame_settled)
    then show ?thesis using e None by (simp add: handleResponse_split)
  qed
qed

lemma live_str_fire_own:
  assumes "live_str h i s"
  shows "settled h (fire (StreamingTimer h i) s)"
proof -
  have "StreamingTimer h i \<in> set (htimers h s)" using assms by (simp add: live_str_def)
  then have "StreamingTimer h i \<in> set (timers s)" by (simp add: htimers_def)
  then show ?thesis using assms
    by (auto simp: fire_def streaming_timeout_def live_str_def intro!: settled_intro)
qed

subsection \<open>One event\<close>

lemma frame_step_calls:
  assumes "h \<noteq> next_handle s" "ev = CallStart x \<or> ev = CallSend a b c \<or> ev = CallSendStreaming a b c
     \<or> ev = ListenError \<or> ev = Stderr d"
  shows "frame h s (step ev s)"
  using assms
  by (auto split: sum.splits simp: on_stderr_def
      intro: frame_start frame_send frame_sendStreaming frame_emit_log)

lemma frame_before_sweep:
  "frame h s (readline_close (kill (s\<lparr>ready := False\<rparr>)))"
  "frame h s (act (EmitExit code) s)"
  "frame h s (act (EmitError error) s)"
  by (intro frameI; simp)+

lemma live_req_step:
  assumes "live_req h i s"
  shows "live_req h i (step ev s) \<or> settled h (step ev s)"
proof -
  have n: "h \<noteq> next_handle s" using assms by (simp add: live_req_def)
  show ?thesis
  proof (cases ev)
    case (CallStart x)
    then show ?thesis using frame_step_calls [OF n, of ev x] assms by (auto intro: frame_live_req)
  next
    case (CallSend a b c)
    then show ?thesis using frame_step_calls [OF n, of ev _ a b c] assms by (auto intro: frame_live_req)
  next
    case (CallSendStreaming a b c)
    then show ?thesis using frame_step_calls [OF n, of ev _ a b c] assms by (auto intro: frame_live_req)
  next
    case CallStop
    have "live_req h i (readline_close (kill (s\<lparr>ready := False\<rparr>)))"
      using frame_before_sweep(1) assms by (rule frame_live_req)
    then show ?thesis using CallStop by (simp add: stop_def live_req_rejectAllPending)
  next
    case ListenError
    then show ?thesis using assms by (auto intro: frame_live_req [OF frame_fields(4)])
  next
    case (Line l p)
    show ?thesis
    proof (cases "readline s = None")
      case True
      then show ?thesis using Line assms by simp
    next
      case False
      then obtain r0 where rd: "readline s = Some r0" by auto
      show ?thesis
      proof (cases p)
        case None
        then show ?thesis using Line rd assms
          by (auto simp: on_line_def intro: frame_live_req [OF frame_emit_log])
      next
        case (Some r)
        obtain x s1 where hr: "handleResponse r s = (x, s1)" by (cases "handleResponse r s")
        have s1: "live_req h i s1 \<or> settled h s1"
          using live_req_handleResponse [OF assms, of r] hr by simp
        then have "live_req h i (emit_log (''[engine] '' @ l) s1) \<or> settled h (emit_log (''[engine] '' @ l) s1)"
          by (auto intro: frame_live_req [OF frame_emit_log] frame_settled [OF frame_emit_log])
        then show ?thesis using Line rd Some hr s1 by (cases x) (simp_all add: on_line_def)
      qed
    qed
  next
    case (Stderr d)
    then show ?thesis using frame_step_calls [OF n, of ev _ _ _ _ d] assms by (auto intro: frame_live_req)
  next
    case (Exit code)
    have "live_req h i (act (EmitExit code) s)"
      using frame_before_sweep(2) assms by (rule frame_live_req)
    then show ?thesis using Exit assms by (simp add: on_exit_def live_req_rejectAllPending)
  next
    case (ProcError e)
    have "live_req h i (act (EmitError e) s)"
      using frame_before_sweep(3) assms by (rule frame_live_req)
    then show ?thesis using ProcError assms by (simp add: on_error_def live_req_rejectAllPending)
  next
    case (Timeout t)
    show ?thesis
    proof (cases "thandle t = h")
      case False
      then show ?thesis using Timeout assms by (auto intro: frame_live_req [OF frame_fire])
    next
      case True
      show ?thesis
      proof (cases "t \<in> set (timers s)")
        case False
        then show ?thesis using Timeout assms by (simp add: fire_def)
      next
        case mem: True
        then have "t \<in> set (htimers h s)" using True by (simp add: htimers_def)
        then have "t = RequestTimer h i" using assms by (simp add: live_req_def)
        then show ?thesis using Timeout live_req_fire_own [OF assms] by simp
      qed
    qed
  qed
qed

lemma live_str_rejectAllPending:
  assumes "live_str h i s"
  shows "live_str h i (rejectAllPending error s)"
proof -
  have "hpending h s = []" using assms by (simp add: live_str_def)
  then have "frame h s (rejectAllPending error s)" by (rule frame_rejectAllPending)
  then show ?thesis using assms by (rule frame_live_str)
qed

lemma live_str_step:
  assumes "live_str h i s"
  shows "live_str h i (step ev s) \<or> settled h (step ev s)"
proof -
  have n: "h \<noteq> next_handle s" using assms by (simp add: live_str_def)
  show ?thesis
  proof (cases ev)
    case (CallStart x)
    then show ?thesis using frame_step_calls [OF n, of ev x] assms by (auto intro: frame_live_str)
  next
    case (CallSend a b c)
    then show ?thesis using frame_step_calls [OF n, of ev _ a b c] assms by (auto intro: frame_live_str)
  next
    case (CallSendStreaming a b c)
    then show ?thesis using frame_step_calls [OF n, of ev _ a b c] assms by (auto intro: frame_live_str)
  next
    case CallStop
    have "live_str h i (readline_close (kill (s\<lparr>ready := False\<rparr>)))"
      using frame_before_sweep(1) assms by (rule frame_live_str)
    then show ?thesis using CallStop by (simp add: stop_def live_str_rejectAllPending)
  next
    case ListenError
    then show ?thesis using assms by (auto intro: frame_live_str [OF frame_fields(4)])
  next
    case (Line l p)
    show ?thesis
    proof (cases "readline s = None")
      case True
      then show ?thesis using Line assms by simp
    next
      case False
      then obtain r0 where rd: "readline s = Some r0" by auto
      show ?thesis
      proof (cases p)
        case None
        then show ?thesis using Line rd assms
          by (auto simp: on_line_def intro: frame_live_str [OF frame_emit_log])
      next
        case (Some r)
        obtain x s1 where hr: "handleResponse r s = (x, s1)" by (cases "handleResponse r s")
        have s1: "live_str h i s1 \<or> settled h s1"
          using live_str_handleResponse [OF assms, of r] hr by simp
        then have "live_str h i (emit_log (''[engine] '' @ l) s1) \<or> settled h (emit_log (''[engine] '' @ l) s1)"
          by (auto intro: frame_live_str [OF frame_emit_log] frame_settled [OF frame_emit_log])
        then show ?thesis using Line rd Some hr s1 by (cases x) (simp_all add: on_line_def)
      qed
    qed
  next
    case (Stderr d)
    then show ?thesis using frame_step_calls [OF n, of ev _ _ _ _ d] assms by (auto intro: frame_live_str)
  next
    case (Exit code)
    have "live_str h i (act (EmitExit code) s)"
      using frame_before_sweep(2) assms by (rule frame_live_str)
    then show ?thesis using Exit assms by (simp add: on_exit_def live_str_rejectAllPending)
  next
    case (ProcError e)
    have "live_str h i (act (EmitError e) s)"
      using frame_before_sweep(3) assms by (rule frame_live_str)
    then show ?thesis using ProcError assms by (simp add: on_error_def live_str_rejectAllPending)
  next
    case (Timeout t)
    show ?thesis
    proof (cases "thandle t = h")
      case False
      then show ?thesis using Timeout assms by (auto intro: frame_live_str [OF frame_fire])
    next
      case True
      show ?thesis
      proof (cases "t \<in> set (timers s)")
        case False
        then show ?thesis using Timeout assms by (simp add: fire_def)
      next
        case mem: True
        then have "t \<in> set (htimers h s)" using True by (simp add: htimers_def)
        then have "t = StreamingTimer h i" using assms by (simp add: live_str_def)
        then show ?thesis using Timeout live_str_fire_own [OF assms] by simp
      qed
    qed
  qed
qed

lemma settled_step:
  assumes "settled h s"
  shows "settled h (step ev s)"
proof -
  have "dead h s" using assms by (simp add: settled_def)
  then have "frame h s (step ev s)" by (rule dead_step)
  then show ?thesis using assms by (rule frame_settled)
qed

lemma settled_run: "settled h s \<Longrightarrow> settled h (run evs s)"
  unfolding run_def by (induction evs arbitrary: s) (simp_all add: settled_step)

lemma live_req_run:
  "live_req h i s \<or> settled h s \<Longrightarrow> live_req h i (run evs s) \<or> settled h (run evs s)"
  unfolding run_def
proof (induction evs arbitrary: s)
  case Nil
  then show ?case by simp
next
  case (Cons ev evs)
  have "live_req h i (step ev s) \<or> settled h (step ev s)"
    using Cons.prems live_req_step settled_step by blast
  from Cons.IH [OF this] show ?case by simp
qed

lemma live_str_run:
  "live_str h i s \<or> settled h s \<Longrightarrow> live_str h i (run evs s) \<or> settled h (run evs s)"
  unfolding run_def
proof (induction evs arbitrary: s)
  case Nil
  then show ?case by simp
next
  case (Cons ev evs)
  have "live_str h i (step ev s) \<or> settled h (step ev s)"
    using Cons.prems live_str_step settled_step by blast
  from Cons.IH [OF this] show ?case by simp
qed

subsection \<open>Fresh handles, and the state after a call\<close>

lemma frame_unused: "frame h s s' \<Longrightarrow> unused h s \<Longrightarrow> unused h s'"
  by (auto simp: frame_def unused_def)

lemma fresh_new_bridge: "fresh_handles (new_bridge path dflt)"
  by (simp add: fresh_handles_def unused_def new_bridge_def view_defs)

lemma fresh_step:
  assumes "fresh_handles s"
  shows "fresh_handles (step ev s)"
  unfolding fresh_handles_def
proof (intro allI impI)
  fix h
  assume h: "next_handle (step ev s) \<le> h"
  let ?m = "max (next_handle s) (next_handle (step ev s))"
  have "unused ?m s" using assms by (simp add: fresh_handles_def)
  then have "frame ?m s (step ev s)"
    by (intro unref_step) (simp_all add: unused_def)
  then have mono: "next_handle s \<le> next_handle (step ev s)" by (simp add: frame_def)
  then have u: "unused h s" using assms h by (simp add: fresh_handles_def)
  then have "frame h s (step ev s)"
    using h by (intro unref_step) (simp_all add: unused_def)
  then show "unused h (step ev s)" using u by (rule frame_unused)
qed

lemma fresh_run: "fresh_handles s \<Longrightarrow> fresh_handles (run evs s)"
  unfolding run_def by (induction evs arbitrary: s) (simp_all add: fresh_step)

lemma fresh_reachable: "fresh_handles (run evs (new_bridge path dflt))"
  by (simp add: fresh_run fresh_new_bridge)

lemma filter_update_own:
  "filter P xs = [] \<Longrightarrow> P (k, v) \<Longrightarrow> filter P (AList.update k v xs) = [(k, v)]"
  by (induction xs) (auto split: if_splits)

lemma send_live:
  assumes "fresh_handles s" "send request ident now s = Inr (h, s')"
  shows "live_req h ident s' \<and> chunks h s' = []
       \<and> hpending h s' = [(ident, \<lparr>promise = h, timeout = RequestTimer h ident\<rparr>)]"
proof -
  have h: "h = next_handle s" using assms(2) next_handle_calls(1) by blast
  then have u: "unused h s" using assms(1) by (simp add: fresh_handles_def)
  have "filter (refers h) (AList.update ident \<lparr>promise = h, timeout = RequestTimer h ident\<rparr> (pending s))
        = [(ident, \<lparr>promise = h, timeout = RequestTimer h ident\<rparr>)]"
    using u by (intro filter_update_own) (simp_all add: unused_def hpending_def refers_def)
  then show ?thesis using assms(2) u h
    by (auto simp: send_def Let_def live_req_def unused_def stdin_write_def pending_set_def
        setTimeout_def act_def view_defs split: if_splits)
qed

lemma sendStreaming_live:
  assumes "fresh_handles s" "sendStreaming request ident now s = Inr (h, s')"
  shows "live_str h ident s' \<and> chunks h s' = [] \<and> hlisteners h s' = [StreamHandler h ident]"
proof -
  have h: "h = next_handle s" using assms(2) next_handle_calls(2) by blast
  then have u: "unused h s" using assms(1) by (simp add: fresh_handles_def)
  then show ?thesis using assms(2) h
    by (auto simp: sendStreaming_def Let_def live_str_def unused_def stdin_write_def on_response_def
        setTimeout_def act_def view_defs split: if_splits)
qed

lemma settled_once: "settled h s \<Longrightarrow> length (outcomes h s) = 1"
  by (simp add: settled_def)

subsection \<open>Success as stream\<close>

lemma call_listener_no_throw:
  "get_prop r ''id'' = Inr v \<Longrightarrow> fst (call_listener l r s) = None"
  by (cases l) (simp_all add: Let_def)

lemma emit_response_no_throw:
  "get_prop r ''id'' = Inr v \<Longrightarrow> fst (emit_response ls r s) = None"
proof (induction ls arbitrary: s)
  case Nil
  then show ?case by simp
next
  case (Cons l ls)
  obtain x s1 where c: "call_listener l r s = (x, s1)" by (cases "call_listener l r s")
  then have "x = None" using call_listener_no_throw [OF Cons.prems, of l s] by simp
  then show ?case using c Cons.IH [OF Cons.prems] by simp
qed

lemma call_own_success:
  assumes "live_str h i s" "get_prop r ''id'' = Inr (JStr i)" "js_prop r ''status'' = JStr ''success''"
  shows "settled h (snd (call_listener (StreamHandler h i) r s))
       \<and> chunks h (snd (call_listener (StreamHandler h i) r s)) = chunks h s @ [OnChunk h (done_chunk r)]
       \<and> outcomes h (snd (call_listener (StreamHandler h i) r s)) = [Resolve h JUndefined]"
  using assms
  by (auto simp: live_str_def done_chunk_def intro!: settled_intro)

lemma emit_own_success:
  assumes "live_str h i s" "filter (\<lambda>l. lhandle l = h) ls = [StreamHandler h i]"
    and "get_prop r ''id'' = Inr (JStr i)" "js_prop r ''status'' = JStr ''success''"
  shows "settled h (snd (emit_response ls r s))
       \<and> chunks h (snd (emit_response ls r s)) = chunks h s @ [OnChunk h (done_chunk r)]
       \<and> outcomes h (snd (emit_response ls r s)) = [Resolve h JUndefined]"
  using assms(1,2)
proof (induction ls arbitrary: s)
  case Nil
  then show ?case by simp
next
  case (Cons l ls)
  obtain x s1 where c: "call_listener l r s = (x, s1)" by (cases "call_listener l r s")
  then have x: "x = None" using call_listener_no_throw [OF assms(3), of l s] by simp
  show ?case
  proof (cases "lhandle l = h")
    case False
    then have f: "frame h s (snd (call_listener l r s))" by (rule frame_call_listener)
    then have l1: "live_str h i s1" using Cons.prems(1) c by (auto intro: frame_live_str)
    have "filter (\<lambda>l. lhandle l = h) ls = [StreamHandler h i]"
      using Cons.prems(2) False by simp
    from Cons.IH [OF l1 this] f c x show ?thesis by (simp add: frame_def)
  next
    case True
    with Cons.prems(2) have l: "l = StreamHandler h i" and rest: "filter (\<lambda>l. lhandle l = h) ls = []"
      by auto
    have own: "settled h s1" "chunks h s1 = chunks h s @ [OnChunk h (done_chunk r)]"
      "outcomes h s1 = [Resolve h JUndefined]"
      using call_own_success [OF Cons.prems(1) assms(3,4)] l c by simp_all
    have f: "frame h s1 (snd (emit_response ls r s1))" using rest by (rule frame_emit_listeners)
    then have "settled h (snd (emit_response ls r s1))" using own(1) by (rule frame_settled)
    then show ?thesis using f own c x by (simp add: frame_def)
  qed
qed

lemma handleResponse_own_success:
  assumes "live_str h i s" "hlisteners h s = [StreamHandler h i]"
    and "get_prop r ''id'' = Inr (JStr i)" "js_prop r ''status'' = JStr ''success''"
  shows "fst (handleResponse r s) = None
       \<and> settled h (snd (handleResponse r s))
       \<and> chunks h (snd (handleResponse r s)) = chunks h s @ [OnChunk h (done_chunk r)]
       \<and> outcomes h (snd (handleResponse r s)) = [Resolve h JUndefined]"
proof -
  obtain x s1 where e: "emit_response (listeners s) r s = (x, s1)"
    by (cases "emit_response (listeners s) r s")
  then have x: "x = None" using emit_response_no_throw [OF assms(3), of "listeners s" s] by simp
  have own: "settled h s1" "chunks h s1 = chunks h s @ [OnChunk h (done_chunk r)]"
    "outcomes h s1 = [Resolve h JUndefined]"
    using emit_own_success [OF assms(1) _ assms(3,4), of "listeners s"] assms(2) e
    by (simp_all add: hlisteners_def)
  have "hpending h s1 = []" using own(1) by (simp add: settled_def dead_def)
  then have f: "frame h s1 (snd (respond_pending r s1))" by (rule frame_respond_pending)
  then have "settled h (snd (respond_pending r s1))" using own(1) by (rule frame_settled)
  moreover have "fst (respond_pending r s1) = None"
    using assms(3) by (simp add: respond_pending_def Let_def split: option.splits)
  ultimately show ?thesis using f own e x
    by (simp add: handleResponse_split frame_def)
qed

subsection \<open>Evaluating the example run\<close>

lemmas prim_defs = act_def setTimeout_def clearTimeout_def on_response_def removeListener_def
  pending_set_def pending_clear_def resolve_def reject_def onChunk_def stdin_write_def emit_log_def

lemmas run_defs = run_def new_bridge_def start_def path_join_def waitForReady_def on_line_def
  handleResponse_def get_prop_def Let_def ready_line_def

lemma booted_fields:
  "ready booted" "next_handle booted = 1" "process booted = Some Running"
  "readline booted = Some Open" "pending booted = []" "listeners booted = []" "timers booted = []"
  by (simp_all add: booted_def run_defs prim_defs)

subsection \<open>Calls before the ready signal\<close>

lemma step_send_not_ready:
  "\<not> ready s \<Longrightarrow> is_send_call ev \<Longrightarrow> step ev s = s"
  by (cases ev) (simp_all add: send_def sendStreaming_def)

lemma run_send_not_ready:
  "\<not> ready s \<Longrightarrow> list_all is_send_call evs \<Longrightarrow> run evs s = s"
  unfolding run_def
  by (induction evs) (simp_all add: step_send_not_ready)

subsection \<open>Fields that only start, stop and the runtime change\<close>

lemma same_io_refl [simp]: "same_io s s"
  by (simp add: same_io_def)

lemma same_io_trans: "same_io s s' \<Longrightarrow> same_io s' s'' \<Longrightarrow> same_io s s''"
  by (simp add: same_io_def)

lemma same_io_prims [simp]:
  "same_io s (act a s)" "same_io s (setTimeout t ms s)" "same_io s (clearTimeout t s)"
  "same_io s (on_response l s)" "same_io s (removeListener l s)" "same_io s (pending_set k p s)"
  "same_io s (pending_delete v s)" "same_io s (pending_clear s)" "same_io s (resolve h v s)"
  "same_io s (reject h e s)" "same_io s (onChunk h v s)" "same_io s (stdin_write m s)"
  "same_io s (emit_log x s)" "same_io s (s\<lparr>ready := b\<rparr>)" "same_io s (s\<lparr>timers := ts\<rparr>)"
  "same_io s (s\<lparr>next_handle := n\<rparr>)"
  by (cases v; simp add: same_io_def prim_defs pending_delete.simps)+

lemmas same_ioI = same_io_refl
  same_io_trans [OF _ same_io_prims(1)] same_io_trans [OF _ same_io_prims(2)]
  same_io_trans [OF _ same_io_prims(3)] same_io_trans [OF _ same_io_prims(4)]
  same_io_trans [OF _ same_io_prims(5)] same_io_trans [OF _ same_io_prims(6)]
  same_io_trans [OF _ same_io_prims(7)] same_io_trans [OF _ same_io_prims(8)]
  same_io_trans [OF _ same_io_prims(9)] same_io_trans [OF _ same_io_prims(10)]
  same_io_trans [OF _ same_io_prims(11)] same_io_trans [OF _ same_io_prims(12)]
  same_io_trans [OF _ same_io_prims(13)] same_io_trans [OF _ same_io_prims(14)]
  same_io_trans [OF _ same_io_prims(15)] same_io_trans [OF _ same_io_prims(16)]

lemma same_io_call_listener: "same_io s (snd (call_listener l r s))"
  by (cases l) (auto simp: Let_def split: sum.splits intro!: same_ioI)

lemma same_io_emit_response: "same_io s (snd (emit_response ls r s))"
proof (induction ls arbitrary: s)
  case Nil
  then show ?case by simp
next
  case (Cons l ls)
  obtain x s1 where c: "call_listener l r s = (x, s1)" by (cases "call_listener l r s")
  have "same_io s s1" using same_io_call_listener [of s l r] c by simp
  then show ?case using c Cons.IH [of s1] by (cases x) (auto intro: same_io_trans)
qed

lemma same_io_respond_pending: "same_io s (snd (respond_pending r s))"
  by (auto simp: respond_pending_def Let_def split: sum.splits option.splits intro!: same_ioI)

lemma same_io_handleResponse: "same_io s (snd (handleResponse r s))"
proof -
  obtain x s1 where e: "emit_response (listeners s) r s = (x, s1)"
    by (cases "emit_response (listeners s) r s")
  have "same_io s s1" using same_io_emit_response [of s "listeners s" r] e by simp
  then show ?thesis using e same_io_respond_pending [of s1 r]
    by (cases x) (auto simp: handleResponse_split intro: same_io_trans)
qed

lemma fold_sweep_fields:
  "same_io s (fold (sweep_entry error) ps s) \<and> ready (fold (sweep_entry error) ps s) = ready s"
proof (induction ps arbitrary: s)
  case Nil
  then show ?case by simp
next
  case (Cons e ps)
  have "same_io s (sweep_entry error e s) \<and> ready (sweep_entry error e s) = ready s"
    by (cases e) (simp add: sweep_entry_def same_io_def prim_defs)
  then show ?case using Cons.IH [of "sweep_entry error e s"] by (auto intro: same_io_trans)
qed

lemma rejectAllPending_fields:
  "same_io s (rejectAllPending error s)" "ready (rejectAllPending error s) = ready s"
  using fold_sweep_fields [of s error "pending s"]
  by (auto simp: rejectAllPending_sweep pending_clear_def act_def same_io_def)

lemma fire_fields: "same_io s (fire t s)" "ready (fire t s) = ready s"
  by (cases t; cases "t \<in> set (timers s)";
      simp add: fire_def startup_timeout_def request_timeout_def streaming_timeout_def
        same_io_def prim_defs pending_delete.simps)+

subsection \<open>Ready implies a line reader and a spawned process\<close>

lemma ready_inv_new: "ready_inv (new_bridge path dflt)"
  by (simp add: ready_inv_def new_bridge_def)

lemma ready_inv_step: "ready_inv s \<Longrightarrow> ready_inv (step ev s)"
proof (cases ev)
  case (CallStart x)
  assume "ready_inv s"
  then show ?thesis using CallStart
    by (auto simp: ready_inv_def start_def waitForReady_def Let_def prim_defs split: sum.splits if_splits)
next
  case (CallSend a b c)
  assume "ready_inv s"
  then show ?thesis using CallSend
    by (auto simp: ready_inv_def send_def Let_def prim_defs split: sum.splits if_splits)
next
  case (CallSendStreaming a b c)
  assume "ready_inv s"
  then show ?thesis using CallSendStreaming
    by (auto simp: ready_inv_def sendStreaming_def Let_def prim_defs split: sum.splits if_splits)
next
  case CallStop
  assume "ready_inv s"
  then show ?thesis using CallStop
      rejectAllPending_fields [where s = "readline_close (kill (s\<lparr>ready := False\<rparr>))" and error = "Error (JStr ''Engine stopped'')"]
    by (auto simp: ready_inv_def stop_def same_io_def readline_close_def kill_def act_def split: option.splits)
next
  case ListenError
  assume "ready_inv s"
  then show ?thesis using ListenError by (simp add: ready_inv_def)
next
  case (Line l p)
  assume i: "ready_inv s"
  show ?thesis
  proof (cases "readline s = None")
    case True
    then show ?thesis using Line i by simp
  next
    case False
    then obtain r0 where rd: "readline s = Some r0" by auto
    have "same_io s (on_line l p s)"
    proof (cases p)
      case None
      then show ?thesis by (simp add: on_line_def)
    next
      case (Some r)
      obtain x s1 where hr: "handleResponse r s = (x, s1)" by (cases "handleResponse r s")
      then have "same_io s s1" using same_io_handleResponse [of s r] by simp
      then show ?thesis using Some hr by (cases x) (auto simp: on_line_def intro!: same_ioI)
    qed
    then show ?thesis using Line rd i by (auto simp: ready_inv_def same_io_def)
  qed
next
  case (Stderr x)
  assume "ready_inv s"
  then show ?thesis using Stderr by (auto simp: ready_inv_def on_stderr_def prim_defs)
next
  case (Exit c)
  assume "ready_inv s"
  then show ?thesis using Exit
      rejectAllPending_fields [where s = "act (EmitExit c) s" and error = "ErrorT ''Engine exited with code '' c"]
    by (auto simp: ready_inv_def on_exit_def same_io_def act_def)
next
  case (ProcError e)
  assume "ready_inv s"
  then show ?thesis using ProcError
      rejectAllPending_fields [where s = "act (EmitError e) s" and error = e]
    by (auto simp: ready_inv_def on_error_def same_io_def act_def)
next
  case (Timeout t)
  assume "ready_inv s"
  then show ?thesis using Timeout fire_fields [where s = s and t = t]
    by (auto simp: ready_inv_def same_io_def)
qed

lemma ready_inv_reachable: "ready_inv (run evs (new_bridge path dflt))"
proof -
  have "ready_inv s \<Longrightarrow> ready_inv (run evs s)" for s
    unfolding run_def by (induction evs arbitrary: s) (simp_all add: ready_inv_step)
  then show ?thesis by (simp add: ready_inv_new)
qed

subsection \<open>Responses nobody is registered for\<close>

lemma call_listener_ignores:
  "get_prop r ''id'' = Inr v \<Longrightarrow> \<not> listens_for l v \<Longrightarrow> call_listener l r s = (None, s)"
  by (cases l) simp_all

lemma emit_response_ignores:
  "get_prop r ''id'' = Inr v \<Longrightarrow> list_all (\<lambda>l. \<not> listens_for l v) ls
   \<Longrightarrow> emit_response ls r s = (None, s)"
  by (induction ls) (simp_all add: call_listener_ignores)

subsection \<open>A terminal response for a pending unary request\<close>

lemma respond_own:
  assumes "live_req h i s" "map_of (pending s) i = Some \<lparr>promise = h, timeout = RequestTimer h i\<rparr>"
    and "get_prop r ''id'' = Inr (JStr i)" "js_prop r ''status'' \<noteq> JStr ''streaming''"
  shows "fst (respond_pending r s) = None
       \<and> settled h (snd (respond_pending r s))
       \<and> outcomes h (snd (respond_pending r s))
           = [if js_prop r ''status'' = JStr ''error'' then Reject h (Error (error_message r))
              else Resolve h (js_prop r ''data'')]
       \<and> chunks h (snd (respond_pending r s)) = chunks h s"
proof -
  have "(i, \<lparr>promise = h, timeout = RequestTimer h i\<rparr>) \<in> set (pending s)"
    using assms(2) by (rule map_of_SomeD)
  then have "(i, \<lparr>promise = h, timeout = RequestTimer h i\<rparr>) \<in> set (hpending h s)"
    by (rule hpending_mem) (simp add: refers_def)
  then have hp: "hpending h s = [(i, \<lparr>promise = h, timeout = RequestTimer h i\<rparr>)]"
    using assms(1) by (auto simp: live_req_def)
  show ?thesis using assms hp
    by (auto simp: respond_pending_def Let_def live_req_def intro!: settled_intro)
qed

lemma handleResponse_own_unary:
  assumes "live_req h i s" "map_of (pending s) i = Some \<lparr>promise = h, timeout = RequestTimer h i\<rparr>"
    and "get_prop r ''id'' = Inr (JStr i)" "js_prop r ''status'' \<noteq> JStr ''streaming''"
  shows "fst (handleResponse r s) = None
       \<and> settled h (snd (handleResponse r s))
       \<and> outcomes h (snd (handleResponse r s))
           = [if js_prop r ''status'' = JStr ''error'' then Reject h (Error (error_message r))
              else Resolve h (js_prop r ''data'')]
       \<and> chunks h (snd (handleResponse r s)) = chunks h s"
proof -
  obtain x s1 where e: "emit_response (listeners s) r s = (x, s1)"
    by (cases "emit_response (listeners s) r s")
  then have x: "x = None" using emit_response_no_throw [OF assms(3), of "listeners s" s] by simp
  have "filter (\<lambda>l. lhandle l = h) (listeners s) = []"
    using assms(1) by (simp add: live_req_def hlisteners_def)
  then have "frame h s (snd (emit_response (listeners s) r s))" by (rule frame_emit_listeners)
  then have f: "frame h s s1" using e by simp
  then have l1: "live_req h i s1" using assms(1) by (rule frame_live_req)
  have "pending s1 = pending s" using emit_response_pending [of "listeners s" r s] e by simp
  then have m1: "map_of (pending s1) i = Some \<lparr>promise = h, timeout = RequestTimer h i\<rparr>"
    using assms(2) by simp
  from respond_own [OF l1 m1 assms(3,4)] f e x show ?thesis
    by (simp add: handleResponse_split frame_def)
qed

lemma send_registered:
  assumes "send request ident now s = Inr (h, s')"
  shows "map_of (pending s') ident = Some \<lparr>promise = h, timeout = RequestTimer h ident\<rparr>
       \<and> RequestTimer h ident \<in> set (timers s')"
  using assms
  by (auto simp: send_def Let_def prim_defs update_Some_unfold split: if_splits)

lemma unary_response:
  assumes "s = run evs0 (new_bridge path dflt)"
    and "send request ident now s = Inr (h, s')"
    and "get_prop response ''id'' = Inr (JStr ident)"
    and "js_prop response ''status'' \<noteq> JStr ''streaming''"
  shows "outcomes h (run evs (on_line line (Some response) s'))
           = [if js_prop response ''status'' = JStr ''error''
              then Reject h (Error (error_message response))
              else Resolve h (js_prop response ''data'')]"
proof -
  have w: "fresh_handles s" using assms(1) by (simp add: fresh_reachable)
  have l: "live_req h ident s'" using send_live [OF w assms(2)] by simp
  have m: "map_of (pending s') ident = Some \<lparr>promise = h, timeout = RequestTimer h ident\<rparr>"
    using send_registered [OF assms(2)] by simp
  obtain x s1 where hr: "handleResponse response s' = (x, s1)"
    by (cases "handleResponse response s'")
  have r: "x = None" "settled h s1"
    "outcomes h s1 = [if js_prop response ''status'' = JStr ''error''
              then Reject h (Error (error_message response))
              else Resolve h (js_prop response ''data'')]"
    using handleResponse_own_unary [OF l m assms(3,4)] hr by simp_all
  have o: "on_line line (Some response) s' = s1" using hr r(1) by (simp add: on_line_def)
  have "dead h s1" using r(2) by (simp add: settled_def)
  then have "frame h s1 (run evs s1)" by (rule dead_run)
  then show ?thesis using r o by (simp add: frame_def)
qed

subsection \<open>How pending changes\<close>

lemma set_delete_subset: "set (AList.delete k xs) \<subseteq> set xs"
  by (auto simp: AList.delete_eq)

lemma set_update_subset: "set (AList.update k v xs) \<subseteq> insert (k, v) (set xs)"
  by (induction xs) auto

lemma pending_delete_subset: "set (pending (pending_delete v s)) \<subseteq> set (pending s)"
  by (cases v) (auto simp: pending_delete.simps act_def AList.delete_eq)

lemma pending_settle [simp]:
  "pending (clearTimeout t s) = pending s"
  "pending (resolve h v s) = pending s"
  "pending (reject h e s) = pending s"
  by (simp_all add: prim_defs)

lemma pending_respond_subset: "set (pending (snd (respond_pending r s))) \<subseteq> set (pending s)"
  by (auto simp: respond_pending_def Let_def split: sum.splits option.splits
      dest!: subsetD [OF pending_delete_subset])

lemma pending_handleResponse_subset: "set (pending (snd (handleResponse r s))) \<subseteq> set (pending s)"
proof -
  obtain x s1 where e: "emit_response (listeners s) r s = (x, s1)"
    by (cases "emit_response (listeners s) r s")
  have "pending s1 = pending s" using emit_response_pending [of "listeners s" r s] e by simp
  then show ?thesis using e pending_respond_subset [of r s1]
    by (cases x) (auto simp: handleResponse_split)
qed

lemma pending_rejectAllPending [simp]: "pending (rejectAllPending error s) = []"
  by (simp add: rejectAllPending_def pending_clear_def act_def)

lemma pending_stop [simp]: "pending (stop s) = []"
  by (simp add: stop_def)

lemma pending_fire_subset: "set (pending (fire t s)) \<subseteq> set (pending s)"
  using pending_delete_subset [of "JStr i" "s\<lparr>timers := removeAll t (timers s)\<rparr>" for i]
  by (cases t) (auto simp: fire_def startup_timeout_def request_timeout_def streaming_timeout_def
      reject_def removeListener_def act_def)

lemma pending_on_line_subset: "set (pending (on_line l p s)) \<subseteq> set (pending s)"
proof (cases p)
  case None
  then show ?thesis by (simp add: on_line_def emit_log_def act_def)
next
  case (Some r)
  obtain x s1 where hr: "handleResponse r s = (x, s1)" by (cases "handleResponse r s")
  then have "set (pending s1) \<subseteq> set (pending s)" using pending_handleResponse_subset [of r s] by simp
  then show ?thesis using Some hr by (cases x) (auto simp: on_line_def emit_log_def act_def)
qed

lemma pending_step:
  assumes "(k, p) \<in> set (pending (step ev s))"
  shows "(k, p) \<in> set (pending s)
       \<or> (\<exists>a c h s'. ev = CallSend a k c \<and> send a k c s = Inr (h, s')
             \<and> p = \<lparr>promise = h, timeout = RequestTimer h k\<rparr>)"
proof (cases ev)
  case (CallStart x)
  then show ?thesis using assms
    by (auto simp: start_def waitForReady_def Let_def prim_defs split: sum.splits if_splits)
next
  case (CallSend a b c)
  show ?thesis
  proof (cases "send a b c s")
    case (Inl e)
    then show ?thesis using assms CallSend by simp
  next
    case (Inr r)
    then obtain h s' where r: "send a b c s = Inr (h, s')" by (cases r) auto
    then have "pending s' = AList.update b \<lparr>promise = h, timeout = RequestTimer h b\<rparr> (pending s)"
      by (auto simp: send_def Let_def prim_defs split: if_splits)
    then have "(k, p) \<in> insert (b, \<lparr>promise = h, timeout = RequestTimer h b\<rparr>) (set (pending s))"
      using assms CallSend r set_update_subset by fastforce
    then show ?thesis using CallSend r by auto
  qed
next
  case (CallSendStreaming a b c)
  then show ?thesis using assms
    by (auto simp: sendStreaming_def Let_def prim_defs split: sum.splits if_splits)
next
  case CallStop
  then show ?thesis using assms by simp
next
  case ListenError
  then show ?thesis using assms by simp
next
  case (Line l q)
  then show ?thesis using assms pending_on_line_subset [of l q s] by (auto split: if_splits)
next
  case (Stderr x)
  then show ?thesis using assms by (auto simp: on_stderr_def emit_log_def act_def split: if_splits)
next
  case (Exit c)
  then show ?thesis using assms by (auto simp: on_exit_def split: if_splits)
next
  case (ProcError e)
  then show ?thesis using assms by (auto simp: on_error_def split: if_splits)
next
  case (Timeout t)
  then show ?thesis using assms pending_fire_subset [of t s] by auto
qed

lemma pend_inv_step:
  assumes "fresh_handles s" "pend_inv s"
  shows "pend_inv (step ev s)"
  unfolding pend_inv_def list_all_iff
proof (intro ballI, clarify)
  fix k p
  assume m: "(k, p) \<in> set (pending (step ev s))"
  from pending_step [OF m] show "live_req (promise p) k (step ev s)"
  proof
    assume "(k, p) \<in> set (pending s)"
    then have "live_req (promise p) k s" using assms(2) by (auto simp: pend_inv_def list_all_iff)
    then have "live_req (promise p) k (step ev s) \<or> settled (promise p) (step ev s)"
      by (rule live_req_step)
    moreover have "\<not> settled (promise p) (step ev s)"
    proof
      assume "settled (promise p) (step ev s)"
      then have "hpending (promise p) (step ev s) = []" by (simp add: settled_def dead_def)
      moreover have "(k, p) \<in> set (hpending (promise p) (step ev s))"
        using m by (rule hpending_mem) (simp add: refers_def)
      ultimately show False by simp
    qed
    ultimately show ?thesis by simp
  next
    assume "\<exists>a c h s'. ev = CallSend a k c \<and> send a k c s = Inr (h, s')
             \<and> p = \<lparr>promise = h, timeout = RequestTimer h k\<rparr>"
    then obtain a c h s' where ev: "ev = CallSend a k c" and c: "send a k c s = Inr (h, s')"
      and p: "p = \<lparr>promise = h, timeout = RequestTimer h k\<rparr>" by blast
    have "live_req h k s'" using send_live [OF assms(1) c] by simp
    then show ?thesis using ev c p by simp
  qed
qed

lemma pend_inv_reachable: "pend_inv (run evs (new_bridge path dflt))"
proof -
  have "fresh_handles s \<and> pend_inv s \<Longrightarrow> fresh_handles (run evs s) \<and> pend_inv (run evs s)" for s
    unfolding run_def
    by (induction evs arbitrary: s) (simp_all add: pend_inv_step fresh_step)
  moreover have "pend_inv (new_bridge path dflt)" by (simp add: pend_inv_def new_bridge_def)
  ultimately show ?thesis using fresh_new_bridge by blast
qed

subsection \<open>The sweep\<close>

lemma settles_act: "filter is_settle (trace (act a s)) = filter is_settle (trace s) @ filter is_settle [a]"
  by (simp add: act_def)

lemma sweep_empty_settles:
  "pending s = [] \<Longrightarrow> filter is_settle (trace (rejectAllPending error s)) = filter is_settle (trace s)"
  by (simp add: rejectAllPending_def pending_clear_def act_def)

lemma stop_fields:
  "pending (readline_close (kill (s\<lparr>ready := False\<rparr>))) = pending s"
  "filter is_settle (trace (readline_close (kill (s\<lparr>ready := False\<rparr>)))) = filter is_settle (trace s)"
  by (simp_all add: readline_close_def kill_def act_def split: option.splits)

lemma stop_again_settles:
  "pending s = [] \<Longrightarrow> filter is_settle (trace (stop s)) = filter is_settle (trace s)"
  by (simp add: stop_def sweep_empty_settles stop_fields)

lemma exit_after_sweep_settles:
  "pending s = [] \<Longrightarrow> filter is_settle (trace (step (Exit code) s)) = filter is_settle (trace s)"
  by (simp add: on_exit_def sweep_empty_settles act_def)

lemma stop_rejects_entry:
  assumes "live_req h k s" "(k, p) \<in> set (pending s)" "promise p = h"
  shows "outcomes h s = [] \<and> outcomes h (stop s) = [Reject h (Error (JStr ''Engine stopped''))]"
proof -
  let ?s1 = "readline_close (kill (s\<lparr>ready := False\<rparr>))"
  have l1: "live_req h k ?s1" using frame_before_sweep(1) assms(1) by (rule frame_live_req)
  have "(k, p) \<in> set (pending ?s1)" using assms(2) by (simp add: stop_fields)
  then have mem: "(k, p) \<in> set (hpending h ?s1)"
    by (rule hpending_mem) (simp add: refers_def assms(3))
  have "hpending h ?s1 = [] \<or> hpending h ?s1 = [(k, \<lparr>promise = h, timeout = RequestTimer h k\<rparr>)]"
    using l1 by (simp add: live_req_def)
  with mem have "hpending h ?s1 = [(k, \<lparr>promise = h, timeout = RequestTimer h k\<rparr>)]"
    by auto
  then have hp: "filter (refers h) (pending ?s1) = [(k, \<lparr>promise = h, timeout = RequestTimer h k\<rparr>)]"
    by (simp add: hpending_def)
  have a: "htimers h ?s1 = [RequestTimer h k]" "outcomes h ?s1 = []"
    using l1 by (simp_all add: live_req_def)
  have "outcomes h (fold (sweep_entry (Error (JStr ''Engine stopped''))) (pending ?s1) ?s1)
          = [Reject h (Error (JStr ''Engine stopped''))]"
    using fold_sweep_own [OF hp a] by simp
  then have "outcomes h (stop s) = [Reject h (Error (JStr ''Engine stopped''))]"
    by (simp add: stop_def rejectAllPending_sweep)
  then show ?thesis using assms(1) by (simp add: live_req_def)
qed

subsection \<open>The order of effects in a call\<close>

lemma send_trace:
  assumes "ready s" "process s \<noteq> None"
  shows "\<exists>s'. send request ident now s = Inr (next_handle s, s')
       \<and> trace s' = trace s @ [SetTimeout (RequestTimer (next_handle s) ident) 60000,
                                 PendingSet ident (next_handle s),
                                 StdinWrite (outbound request ident now)]"
  using assms by (simp add: send_def Let_def prim_defs outbound_def)

lemma sendStreaming_trace:
  assumes "ready s" "process s \<noteq> None"
  shows "\<exists>s'. sendStreaming request ident now s = Inr (next_handle s, s')
       \<and> trace s' = trace s @ [SetTimeout (StreamingTimer (next_handle s) ident) 300000,
                                 AddListener (StreamHandler (next_handle s) ident),
                                 StdinWrite (outbound request ident now)]
       \<and> StreamHandler (next_handle s) ident \<in> set (listeners s')
       \<and> StreamingTimer (next_handle s) ident \<in> set (timers s')"
  using assms by (simp add: sendStreaming_def Let_def prim_defs outbound_def)

lemma streaming_response:
  assumes "s = run evs0 (new_bridge path dflt)"
    and "sendStreaming request ident now s = Inr (h, s')"
    and "get_prop response ''id'' = Inr (JStr ident)"
    and "js_prop response ''status'' = JStr ''success''"
  shows "outcomes h (on_line line (Some response) s') = [Resolve h JUndefined]"
proof -
  have w: "fresh_handles s" using assms(1) by (simp add: fresh_reachable)
  have l: "live_str h ident s'" "hlisteners h s' = [StreamHandler h ident]"
    using sendStreaming_live [OF w assms(2)] by simp_all
  obtain x s1 where hr: "handleResponse response s' = (x, s1)"
    by (cases "handleResponse response s'")
  have "x = None" "outcomes h s1 = [Resolve h JUndefined]"
    using handleResponse_own_success [OF l assms(3,4)] hr by simp_all
  then show ?thesis using hr by (simp add: on_line_def)
qed

subsection \<open>Lines that are not protocol messages\<close>

lemma call_listener_unrecognized:
  assumes "get_prop r ''id'' = Inr v" "v \<noteq> JStr ''ready''"
    and "js_prop r ''status'' \<noteq> JStr ''success''" "js_prop r ''status'' \<noteq> JStr ''error''"
    and "js_prop r ''status'' \<noteq> JStr ''streaming''"
  shows "call_listener l r s = (None, s)"
  using assms by (cases l) simp_all

lemma emit_response_unrecognized:
  assumes "get_prop r ''id'' = Inr v" "v \<noteq> JStr ''ready''"
    and "js_prop r ''status'' \<noteq> JStr ''success''" "js_prop r ''status'' \<noteq> JStr ''error''"
    and "js_prop r ''status'' \<noteq> JStr ''streaming''"
  shows "emit_response ls r s = (None, s)"
  by (induction ls) (simp_all add: call_listener_unrecognized [OF assms])


lemma map_of_delete_other: "k \<noteq> k' \<Longrightarrow> map_of (AList.delete k' xs) k = map_of xs k"
  by (induction xs) auto

subsection \<open>The ready message\<close>

lemma ready_call_listener_mono: "ready s \<Longrightarrow> ready (snd (call_listener l r s))"
  by (cases l) (auto simp: Let_def prim_defs split: sum.splits)

lemma ready_emit_response_mono: "ready s \<Longrightarrow> ready (snd (emit_response ls r s))"
proof (induction ls arbitrary: s)
  case Nil
  then show ?case by simp
next
  case (Cons l ls)
  obtain x s1 where c: "call_listener l r s = (x, s1)" by (cases "call_listener l r s")
  then have "ready s1" using ready_call_listener_mono [OF Cons.prems, of l r] by simp
  then show ?case using c Cons.IH [of s1] by (cases x) simp_all
qed

lemma ready_emit_response_set:
  assumes "get_prop r ''id'' = Inr (JStr ''ready'')" "ReadyHandler h \<in> set ls"
  shows "ready (snd (emit_response ls r s))"
  using assms(2)
proof (induction ls arbitrary: s)
  case Nil
  then show ?case by simp
next
  case (Cons l ls)
  obtain x s1 where c: "call_listener l r s = (x, s1)" by (cases "call_listener l r s")
  then have x: "x = None" using call_listener_no_throw [OF assms(1), of l s] by simp
  show ?case
  proof (cases "l = ReadyHandler h")
    case True
    then have "ready s1" using c assms(1) by (auto simp: prim_defs)
    then have "ready (snd (emit_response ls r s1))" by (rule ready_emit_response_mono)
    then show ?thesis using c x by simp
  next
    case False
    then have "ReadyHandler h \<in> set ls" using Cons.prems by simp
    from Cons.IH [OF this, of s1] show ?thesis using c x by simp
  qed
qed

lemma ready_pending_delete [simp]: "ready (pending_delete v s) = ready s"
  by (cases v) (simp_all add: pending_delete.simps act_def)

lemma ready_respond_pending: "ready (snd (respond_pending r s)) = ready s"
  by (auto simp: respond_pending_def Let_def prim_defs split: sum.splits option.splits)

lemma ready_handleResponse_set:
  assumes "get_prop r ''id'' = Inr (JStr ''ready'')" "ReadyHandler h \<in> set (listeners s)"
  shows "fst (handleResponse r s) = None \<and> ready (snd (handleResponse r s))"
proof -
  obtain x s1 where e: "emit_response (listeners s) r s = (x, s1)"
    by (cases "emit_response (listeners s) r s")
  then have x: "x = None" using emit_response_no_throw [OF assms(1), of "listeners s" s] by simp
  have "ready s1" using ready_emit_response_set [OF assms, of s] e by simp
  then have "ready (snd (respond_pending r s1))" by (simp add: ready_respond_pending)
  moreover have "fst (respond_pending r s1) = None"
    using assms(1) by (simp add: respond_pending_def Let_def split: option.splits)
  ultimately show ?thesis using e x by (simp add: handleResponse_split)
qed

lemma start_registers:
  "start existsSync s = Inr (h, s1) \<Longrightarrow> ReadyHandler h \<in> set (listeners s1) \<and> readline s1 = Some Open"
  by (auto simp: start_def waitForReady_def Let_def prim_defs split: if_splits)

lemma start_then_ready:
  assumes "start existsSync s = Inr (h, s1)" "get_prop response ''id'' = Inr (JStr ''ready'')"
  shows "ready (step (Line line (Some response)) s1)"
proof -
  have r: "ReadyHandler h \<in> set (listeners s1)" "readline s1 = Some Open"
    using start_registers [OF assms(1)] by simp_all
  obtain x s2 where hr: "handleResponse response s1 = (x, s2)"
    by (cases "handleResponse response s1")
  then have "x = None" "ready s2" using ready_handleResponse_set [OF assms(2) r(1)] by simp_all
  then show ?thesis using hr r(2) by (simp add: on_line_def)
qed

subsection \<open>The sweep, for an entry of pending\<close>

lemma sweep_rejects_entry:
  assumes "live_req h k s" "(k, p) \<in> set (pending s)" "promise p = h"
  shows "outcomes h (rejectAllPending error s) = [Reject h error]"
proof -
  have mem: "(k, p) \<in> set (hpending h s)"
    using assms(2) by (rule hpending_mem) (simp add: refers_def assms(3))
  have "hpending h s = [] \<or> hpending h s = [(k, \<lparr>promise = h, timeout = RequestTimer h k\<rparr>)]"
    using assms(1) by (simp add: live_req_def)
  with mem have "hpending h s = [(k, \<lparr>promise = h, timeout = RequestTimer h k\<rparr>)]"
    by auto
  then have hp: "filter (refers h) (pending s) = [(k, \<lparr>promise = h, timeout = RequestTimer h k\<rparr>)]"
    by (simp add: hpending_def)
  have a: "htimers h s = [RequestTimer h k]" "outcomes h s = []"
    using assms(1) by (simp_all add: live_req_def)
  have "outcomes h (fold (sweep_entry error) (pending s) s) = [Reject h error]"
    using fold_sweep_own [OF hp a] by simp
  then show ?thesis by (simp add: rejectAllPending_sweep)
qed

subsection \<open>The emit, around the handler of one session\<close>

lemma emit_around_own:
  assumes "filter (\<lambda>l. lhandle l = h) ls = [StreamHandler h i]" "get_prop r ''id'' = Inr v"
  shows "\<exists>s0. frame h s s0
       \<and> frame h (snd (call_listener (StreamHandler h i) r s0)) (snd (emit_response ls r s))"
  using assms(1)
proof (induction ls arbitrary: s)
  case Nil
  then show ?case by simp
next
  case (Cons l ls)
  obtain x s1 where c: "call_listener l r s = (x, s1)" by (cases "call_listener l r s")
  then have x: "x = None" using call_listener_no_throw [OF assms(2), of l s] by simp
  show ?case
  proof (cases "lhandle l = h")
    case False
    then have "frame h s (snd (call_listener l r s))" by (rule frame_call_listener)
    then have f: "frame h s s1" using c by simp
    have "filter (\<lambda>l. lhandle l = h) ls = [StreamHandler h i]"
      using Cons.prems False by simp
    from Cons.IH [OF this, of s1] have "\<exists>s0. frame h s1 s0
       \<and> frame h (snd (call_listener (StreamHandler h i) r s0)) (snd (emit_response ls r s1))" .
    then obtain s0 where a: "frame h s1 s0"
      and b: "frame h (snd (call_listener (StreamHandler h i) r s0)) (snd (emit_response ls r s1))"
      by blast
    have e: "emit_response (l # ls) r s = emit_response ls r s1"
      using c x by (simp del: call_listener.simps)
    have "frame h s s0" using f a by (rule frame_trans)
    then show ?thesis using b unfolding e by blast
  next
    case True
    with Cons.prems have l: "l = StreamHandler h i" and rest: "filter (\<lambda>l. lhandle l = h) ls = []"
      by auto
    have "frame h s1 (snd (emit_response ls r s1))" using rest by (rule frame_emit_listeners)
    moreover have "emit_response (l # ls) r s = emit_response ls r s1"
      using c x by (simp del: call_listener.simps)
    moreover have "snd (call_listener (StreamHandler h i) r s) = s1" using c l by simp
    ultimately have "frame h (snd (call_listener (StreamHandler h i) r s)) (snd (emit_response (l # ls) r s))"
      by simp
    then show ?thesis using frame_refl by blast
  qed
qed

lemma handleResponse_around_own:
  assumes "session_open h i s" "get_prop r ''id'' = Inr v"
  shows "fst (handleResponse r s) = None
       \<and> (\<exists>s0. frame h s s0
            \<and> frame h (snd (call_listener (StreamHandler h i) r s0)) (snd (handleResponse r s)))"
proof -
  obtain x s1 where e: "emit_response (listeners s) r s = (x, s1)"
    by (cases "emit_response (listeners s) r s")
  then have x: "x = None" using emit_response_no_throw [OF assms(2), of "listeners s" s] by simp
  have "filter (\<lambda>l. lhandle l = h) (listeners s) = [StreamHandler h i]"
    using assms(1) by (simp add: session_open_def hlisteners_def)
  from emit_around_own [OF this assms(2), of s] e obtain s0 where
    f0: "frame h s s0" and f1: "frame h (snd (call_listener (StreamHandler h i) r s0)) s1"
    by auto
  define c where "c = snd (call_listener (StreamHandler h i) r s0)"
  have f1': "frame h c s1" using f1 by (simp only: c_def)
  have "hpending h s = []" using assms(1) by (simp add: session_open_def live_str_def)
  then have "hpending h s0 = []" using f0 by (simp add: frame_def)
  then have "hpending h c = []"
    unfolding c_def hpending_def by (simp only: call_listener_pending)
  then have "hpending h s1 = []" using f1' by (simp add: frame_def)
  then have "frame h s1 (snd (respond_pending r s1))" by (rule frame_respond_pending)
  with f1' have "frame h c (snd (respond_pending r s1))" by (rule frame_trans)
  moreover have "snd (handleResponse r s) = snd (respond_pending r s1)"
    using e x by (simp add: handleResponse_split)
  ultimately have "frame h (snd (call_listener (StreamHandler h i) r s0)) (snd (handleResponse r s))"
    by (simp only: c_def)
  moreover have "fst (respond_pending r s1) = None"
    using assms(2) by (simp add: respond_pending_def Let_def split: option.splits)
  then have "fst (handleResponse r s) = None" using e x by (simp add: handleResponse_split)
  ultimately show ?thesis using f0 by blast
qed

lemma session_open_frame: "frame h s s' \<Longrightarrow> session_open h i s \<Longrightarrow> session_open h i s'"
  using frame_live_str [of h s s' i] by (auto simp: session_open_def frame_def)

lemma chunk_step:
  assumes "session_open h i s" "is_chunk i r"
  shows "session_open h i (on_line line (Some r) s)
       \<and> chunks h (on_line line (Some r) s) = chunks h s @ [OnChunk h (js_prop r ''data'')]
       \<and> outcomes h (on_line line (Some r) s) = []"
proof -
  have i: "get_prop r ''id'' = Inr (JStr i)" using assms(2) by (simp add: is_chunk_def)
  from handleResponse_around_own [OF assms(1) i] obtain s0 where
    n: "fst (handleResponse r s) = None" and f0: "frame h s s0"
    and f1: "frame h (snd (call_listener (StreamHandler h i) r s0)) (snd (handleResponse r s))"
    by blast
  define s1 where "s1 = snd (call_listener (StreamHandler h i) r s0)"
  define s2 where "s2 = snd (handleResponse r s)"
  have f1': "frame h s1 s2" using f1 by (simp only: s1_def s2_def)
  have o0: "session_open h i s0" using f0 assms(1) by (rule session_open_frame)
  have c: "s1 = onChunk h (js_prop r ''data'') s0"
    using assms(2) by (simp add: s1_def is_chunk_def Let_def)
  have "chunks h s0 = chunks h s" using f0 by (simp add: frame_def)
  then have a: "session_open h i s1" "chunks h s1 = chunks h s @ [OnChunk h (js_prop r ''data'')]"
    "outcomes h s1 = []"
    using o0 unfolding c by (simp_all add: session_open_def live_str_def)
  have "session_open h i s2" using f1' a(1) by (rule session_open_frame)
  moreover have "chunks h s2 = chunks h s1" "outcomes h s2 = outcomes h s1"
    using f1' by (simp_all add: frame_def)
  moreover have "on_line line (Some r) s = s2"
    using n by (cases "handleResponse r s") (simp add: on_line_def s2_def)
  ultimately show ?thesis using a by simp
qed

lemma done_step:
  assumes "session_open h i s" "is_done i r"
  shows "settled h (on_line line (Some r) s)
       \<and> chunks h (on_line line (Some r) s) = chunks h s @ [OnChunk h (js_prop r ''data'')]
       \<and> outcomes h (on_line line (Some r) s) = [Resolve h JUndefined]"
proof -
  have i: "get_prop r ''id'' = Inr (JStr i)" using assms(2) by (simp add: is_done_def)
  from handleResponse_around_own [OF assms(1) i] obtain s0 where
    n: "fst (handleResponse r s) = None" and f0: "frame h s s0"
    and f1: "frame h (snd (call_listener (StreamHandler h i) r s0)) (snd (handleResponse r s))"
    by blast
  define s1 where "s1 = snd (call_listener (StreamHandler h i) r s0)"
  define s2 where "s2 = snd (handleResponse r s)"
  have f1': "frame h s1 s2" using f1 by (simp only: s1_def s2_def)
  have o0: "session_open h i s0" using f0 assms(1) by (rule session_open_frame)
  have c: "s1 = resolve h JUndefined (removeListener (StreamHandler h i)
               (clearTimeout (StreamingTimer h i) (onChunk h (js_prop r ''data'') s0)))"
    using assms(2) by (simp add: s1_def is_done_def Let_def)
  have "chunks h s0 = chunks h s" using f0 by (simp add: frame_def)
  then have a: "chunks h s1 = chunks h s @ [OnChunk h (js_prop r ''data'')]"
    "outcomes h s1 = [Resolve h JUndefined]"
    using o0 unfolding c by (simp_all add: session_open_def live_str_def)
  have "settled h s1"
    using o0 unfolding c by (auto simp: session_open_def live_str_def intro!: settled_intro)
  then have "settled h s2" using f1' by (simp add: frame_settled)
  moreover have "chunks h s2 = chunks h s1" "outcomes h s2 = outcomes h s1"
    using f1' by (simp_all add: frame_def)
  moreover have "on_line line (Some r) s = s2"
    using n by (cases "handleResponse r s") (simp add: on_line_def s2_def)
  ultimately show ?thesis using a by simp
qed

lemma feed_chunks:
  assumes "session_open h i s" "list_all (is_chunk i) rs"
  shows "session_open h i (feed rs s)
       \<and> chunks h (feed rs s) = chunks h s @ map (\<lambda>r. OnChunk h (js_prop r ''data'')) rs
       \<and> outcomes h (feed rs s) = outcomes h s"
  using assms
proof (induction rs arbitrary: s)
  case Nil
  then show ?case by (simp add: feed_def)
next
  case (Cons r rs)
  have c: "is_chunk i r" and rest: "list_all (is_chunk i) rs" using Cons.prems(2) by simp_all
  have o: "outcomes h s = []" using Cons.prems(1) by (simp add: session_open_def live_str_def)
  from chunk_step [OF Cons.prems(1) c, of "[]"]
  have s1: "session_open h i (on_line [] (Some r) s)"
    "chunks h (on_line [] (Some r) s) = chunks h s @ [OnChunk h (js_prop r ''data'')]"
    "outcomes h (on_line [] (Some r) s) = []"
    by simp_all
  from Cons.IH [OF s1(1) rest] s1 o show ?case by (simp add: feed_def)
qed

subsection \<open>Responses for another id\<close>

lemma held_hpending:
  assumes "held h i s"
  shows "hpending h s = [(i, \<lparr>promise = h, timeout = RequestTimer h i\<rparr>)]"
proof -
  have "(i, \<lparr>promise = h, timeout = RequestTimer h i\<rparr>) \<in> set (pending s)"
    using assms by (auto simp: held_def dest: map_of_SomeD)
  then have "(i, \<lparr>promise = h, timeout = RequestTimer h i\<rparr>) \<in> set (hpending h s)"
    by (rule hpending_mem) (simp add: refers_def)
  then show ?thesis using assms by (auto simp: held_def live_req_def)
qed

lemma respond_other_id:
  assumes "held h i s" "get_prop r ''id'' = Inr (JStr k)" "k \<noteq> i"
  shows "held h i (snd (respond_pending r s))"
proof (cases "map_of (pending s) k")
  case None
  then show ?thesis using assms by (simp add: respond_pending_def)
next
  case (Some p)
  then have mem: "(k, p) \<in> set (pending s)" by (rule map_of_SomeD)
  have nr: "\<not> refers h (k, p)"
  proof
    assume "refers h (k, p)"
    with mem have "(k, p) \<in> set (hpending h s)" by (rule hpending_mem)
    then show False using held_hpending [OF assms(1)] assms(3) by simp
  qed
  then have "frame h s (snd (respond_pending r s))"
    using assms(2) Some
    by (auto simp: respond_pending_def Let_def refers_def simp del: pending_delete.simps
        intro!: frameI)
  then have "live_req h i (snd (respond_pending r s))"
    using assms(1) by (auto simp: held_def intro: frame_live_req)
  moreover have "map_of (pending (snd (respond_pending r s))) i = map_of (pending s) i"
    using assms(2,3) Some
    by (simp add: respond_pending_def Let_def prim_defs pending_delete.simps map_of_delete_other)
  ultimately show ?thesis using assms(1) by (simp add: held_def)
qed

lemma handleResponse_other_id:
  assumes "held h i s" "get_prop r ''id'' = Inr (JStr k)" "k \<noteq> i"
  shows "fst (handleResponse r s) = None \<and> held h i (snd (handleResponse r s))"
proof -
  obtain x s1 where e: "emit_response (listeners s) r s = (x, s1)"
    by (cases "emit_response (listeners s) r s")
  then have x: "x = None" using emit_response_no_throw [OF assms(2), of "listeners s" s] by simp
  have "filter (\<lambda>l. lhandle l = h) (listeners s) = []"
    using assms(1) by (simp add: held_def live_req_def hlisteners_def)
  then have "frame h s (snd (emit_response (listeners s) r s))" by (rule frame_emit_listeners)
  then have "frame h s s1" using e by simp
  then have "live_req h i s1" using assms(1) by (auto simp: held_def intro: frame_live_req)
  moreover have "pending s1 = pending s" using emit_response_pending [of "listeners s" r s] e by simp
  ultimately have h1: "held h i s1" using assms(1) by (simp add: held_def)
  have "fst (respond_pending r s1) = None"
    using assms(2) by (simp add: respond_pending_def Let_def split: option.splits)
  then show ?thesis using respond_other_id [OF h1 assms(2,3)] e x
    by (simp add: handleResponse_split)
qed

lemma send_other_id:
  assumes "held h i s" "send request k now s = Inr (h', s')" "k \<noteq> i"
  shows "held h i s'"
proof -
  have "h \<noteq> next_handle s" using assms(1) by (simp add: held_def live_req_def)
  then have "frame h s s'" using assms(2) by (rule frame_send)
  then have "live_req h i s'" using assms(1) by (auto simp: held_def intro: frame_live_req)
  moreover have "map_of (pending s') i = map_of (pending s) i"
    using assms(2,3) by (auto simp: send_def Let_def prim_defs AList.update_conv' split: if_splits)
  ultimately show ?thesis using assms(1) by (simp add: held_def)
qed

lemma held_response:
  assumes "held h i s" "get_prop r ''id'' = Inr (JStr i)" "js_prop r ''status'' = JStr ''success''"
  shows "settled h (on_line line (Some r) s)
       \<and> outcomes h (on_line line (Some r) s) = [Resolve h (js_prop r ''data'')]"
proof -
  have "js_prop r ''status'' \<noteq> JStr ''streaming''" using assms(3) by simp
  from handleResponse_own_unary [OF _ _ assms(2) this, of h s] assms(1,3)
  have "fst (handleResponse r s) = None" "settled h (snd (handleResponse r s))"
    "outcomes h (snd (handleResponse r s)) = [Resolve h (js_prop r ''data'')]"
    by (simp_all add: held_def)
  moreover from this(1) have "on_line line (Some r) s = snd (handleResponse r s)"
    by (cases "handleResponse r s") (simp add: on_line_def)
  ultimately show ?thesis by simp
qed

subsection \<open>After stop\<close>

lemma listeners_fold_sweep [simp]:
  "listeners (fold (sweep_entry error) ps s) = listeners s"
  by (induction ps arbitrary: s) (auto simp: sweep_entry_def prim_defs)

lemma listeners_rejectAllPending [simp]:
  "listeners (rejectAllPending error s) = listeners s"
  by (simp add: rejectAllPending_sweep pending_clear_def act_def)

lemma listeners_stop [simp]: "listeners (stop s) = listeners s"
  by (simp add: stop_def readline_close_def kill_def act_def split: option.splits)

lemma not_ready_stop: "\<not> ready (stop s)"
  using rejectAllPending_fields(2) [where s = "readline_close (kill (s\<lparr>ready := False\<rparr>))"
      and error = "Error (JStr ''Engine stopped'')"]
  by (simp add: stop_def readline_close_def kill_def act_def split: option.splits)

lemma closed_gate_stop:
  "list_all (\<lambda>l. \<not> is_ready_handler l) (listeners s) \<Longrightarrow> closed_gate (stop s)"
  by (simp add: closed_gate_def not_ready_stop)

lemma list_all_remove1_rev: "list_all P xs \<Longrightarrow> list_all P (remove1 l (rev xs))"
  by (auto simp: list_all_iff dest: notin_set_remove1)

lemma listeners_pending_delete [simp]: "listeners (pending_delete v s) = listeners s"
  by (cases v) (simp_all add: pending_delete.simps act_def)

lemma closed_gate_call_listener:
  assumes "closed_gate s" "\<not> is_ready_handler l"
  shows "closed_gate (snd (call_listener l r s))"
  using assms
  by (cases l) (auto simp: closed_gate_def Let_def prim_defs list_all_remove1_rev split: sum.splits)

lemma closed_gate_emit_response:
  assumes "closed_gate s" "list_all (\<lambda>l. \<not> is_ready_handler l) ls"
  shows "closed_gate (snd (emit_response ls r s))"
  using assms
proof (induction ls arbitrary: s)
  case Nil
  then show ?case by simp
next
  case (Cons l ls)
  obtain x s1 where c: "call_listener l r s = (x, s1)" by (cases "call_listener l r s")
  have "closed_gate (snd (call_listener l r s))"
    using Cons.prems by (intro closed_gate_call_listener) simp_all
  then have "closed_gate s1" using c by simp
  then have "closed_gate (snd (emit_response ls r s1))" using Cons.prems(2) by (intro Cons.IH) simp_all
  then show ?case using c \<open>closed_gate s1\<close> by (cases x) (simp_all del: call_listener.simps)
qed

lemma closed_gate_respond_pending:
  "closed_gate s \<Longrightarrow> closed_gate (snd (respond_pending r s))"
  by (auto simp: closed_gate_def respond_pending_def Let_def prim_defs
      split: sum.splits option.splits)

lemma closed_gate_handleResponse:
  assumes "closed_gate s"
  shows "closed_gate (snd (handleResponse r s))"
proof -
  obtain x s1 where e: "emit_response (listeners s) r s = (x, s1)"
    by (cases "emit_response (listeners s) r s")
  have "closed_gate (snd (emit_response (listeners s) r s))"
    using assms by (intro closed_gate_emit_response) (simp_all add: closed_gate_def)
  then have "closed_gate s1" using e by simp
  then show ?thesis using e closed_gate_respond_pending [of s1 r]
    by (cases x) (simp_all add: handleResponse_split)
qed

lemma closed_gate_emit_log: "closed_gate s \<Longrightarrow> closed_gate (emit_log x s)"
  by (simp add: closed_gate_def prim_defs)

lemma closed_gate_on_line:
  assumes "closed_gate s"
  shows "closed_gate (on_line l p s)"
proof (cases p)
  case None
  then show ?thesis using assms by (simp add: on_line_def closed_gate_emit_log)
next
  case (Some r)
  obtain x s1 where hr: "handleResponse r s = (x, s1)" by (cases "handleResponse r s")
  then have "closed_gate s1" using closed_gate_handleResponse [OF assms, of r] by simp
  then show ?thesis using Some hr by (cases x) (simp_all add: on_line_def closed_gate_emit_log)
qed

lemma closed_gate_sweep:
  "closed_gate s \<Longrightarrow> closed_gate (rejectAllPending error (act a s))"
  using rejectAllPending_fields(2) [where s = "act a s" and error = error]
  by (simp add: closed_gate_def act_def)

lemma closed_gate_fire: "closed_gate s \<Longrightarrow> closed_gate (fire t s)"
  by (cases t)
    (auto simp: closed_gate_def fire_def startup_timeout_def request_timeout_def
      streaming_timeout_def prim_defs list_all_remove1_rev)

lemma closed_gate_step:
  assumes "closed_gate s" "\<not> is_start ev"
  shows "closed_gate (step ev s)"
proof (cases ev)
  case (CallStart x)
  then show ?thesis using assms by simp
next
  case (CallSend a b c)
  then show ?thesis using assms by (simp add: closed_gate_def send_def)
next
  case (CallSendStreaming a b c)
  then show ?thesis using assms by (simp add: closed_gate_def sendStreaming_def)
next
  case CallStop
  then show ?thesis using closed_gate_stop [of s] assms(1) by (simp add: closed_gate_def)
next
  case ListenError
  then show ?thesis using assms by (simp add: closed_gate_def)
next
  case (Line l p)
  then show ?thesis using assms by (simp add: closed_gate_on_line)
next
  case (Stderr x)
  then show ?thesis using assms by (simp add: on_stderr_def closed_gate_emit_log)
next
  case (Exit c)
  then show ?thesis using assms by (simp add: on_exit_def closed_gate_sweep)
next
  case (ProcError e)
  then show ?thesis using assms by (simp add: on_error_def closed_gate_sweep)
next
  case (Timeout t)
  then show ?thesis using assms by (simp add: closed_gate_fire)
qed

lemma closed_gate_run:
  "closed_gate s \<Longrightarrow> list_all (\<lambda>ev. \<not> is_start ev) evs \<Longrightarrow> closed_gate (run evs s)"
  unfolding run_def by (induction evs arbitrary: s) (simp_all add: closed_gate_step)

subsection \<open>Messages without a recognizable status\<close>




lemma logs_pending_delete [simp]:
  "filter is_log (trace (pending_delete v s)) = filter is_log (trace s)"
  by (cases v) (simp_all add: pending_delete.simps act_def)





subsection \<open>An open streaming session, step by step\<close>

lemma handleResponse_throws:
  assumes "get_prop r ''id'' = Inl e"
  shows "handleResponse r s = (Some e, s)"
proof (cases "listeners s")
  case Nil
  then show ?thesis using assms by (simp add: handleResponse_def)
next
  case (Cons l ls)
  have "call_listener l r s = (Some e, s)" using assms by (cases l) simp_all
  then show ?thesis using Cons by (simp add: handleResponse_def del: call_listener.simps)
qed

lemma own_call:
  assumes "session_open h i s"
  shows "(session_open h i (snd (call_listener (StreamHandler h i) r s))
          \<or> settled h (snd (call_listener (StreamHandler h i) r s)))
       \<and> (get_prop r ''id'' \<noteq> Inr (JStr i) \<longrightarrow> snd (call_listener (StreamHandler h i) r s) = s)"
  using assms
  by (auto simp: session_open_def live_str_def Let_def split: sum.splits intro!: settled_intro)

lemma session_open_handleResponse:
  assumes "session_open h i s"
  shows "(session_open h i (snd (handleResponse r s)) \<or> settled h (snd (handleResponse r s)))
       \<and> (get_prop r ''id'' \<noteq> Inr (JStr i) \<longrightarrow> chunks h (snd (handleResponse r s)) = chunks h s)"
proof (cases "get_prop r ''id''")
  case (Inl e)
  then show ?thesis using assms by (simp add: handleResponse_throws)
next
  case (Inr v)
  from handleResponse_around_own [OF assms Inr] obtain s0 where
    f0: "frame h s s0"
    and f1: "frame h (snd (call_listener (StreamHandler h i) r s0)) (snd (handleResponse r s))"
    by blast
  define s1 where "s1 = snd (call_listener (StreamHandler h i) r s0)"
  define s2 where "s2 = snd (handleResponse r s)"
  have f1': "frame h s1 s2" using f1 by (simp only: s1_def s2_def)
  have o0: "session_open h i s0" using f0 assms by (rule session_open_frame)
  have c: "session_open h i s1 \<or> settled h s1"
    "get_prop r ''id'' \<noteq> Inr (JStr i) \<longrightarrow> s1 = s0"
    using own_call [OF o0, of r] unfolding s1_def by blast+
  have "session_open h i s2 \<or> settled h s2"
    using c(1) f1' by (auto intro: session_open_frame frame_settled)
  moreover have "chunks h s2 = chunks h s" if "get_prop r ''id'' \<noteq> Inr (JStr i)"
  proof -
    have "s1 = s0" using c(2) that by simp
    then show ?thesis using f0 f1' by (simp add: frame_def)
  qed
  ultimately show ?thesis by (simp only: s2_def) blast
qed

lemma chunks_pending_delete [simp]: "chunks h (pending_delete v s) = chunks h s"
  by (cases v) (simp_all add: pending_delete.simps chunks_def act_def)

lemma chunks_fire [simp]: "chunks h (fire t s) = chunks h s"
  by (cases t; cases "t \<in> set (timers s)")
    (simp_all add: fire_def startup_timeout_def request_timeout_def streaming_timeout_def)

lemma session_open_step:
  assumes "session_open h i s"
  shows "(session_open h i (step ev s) \<or> settled h (step ev s))
       \<and> (\<not> answers i ev \<longrightarrow> chunks h (step ev s) = chunks h s)"
proof -
  have n: "h \<noteq> next_handle s" and p: "hpending h s = []"
    using assms by (simp_all add: session_open_def live_str_def)
  have fr: "frame h s s' \<Longrightarrow> (session_open h i s' \<or> settled h s') \<and> chunks h s' = chunks h s" for s'
    using assms by (auto intro: session_open_frame simp: frame_def)
  show ?thesis
  proof (cases ev)
    case (CallStart x)
    then have "frame h s (step ev s)" using frame_step_calls [OF n, of ev x] by simp
    from fr [OF this] show ?thesis by simp
  next
    case (CallSend a b c)
    then have "frame h s (step ev s)" using frame_step_calls [OF n, of ev _ a b c] by simp
    from fr [OF this] show ?thesis by simp
  next
    case (CallSendStreaming a b c)
    then have "frame h s (step ev s)" using frame_step_calls [OF n, of ev _ a b c] by simp
    from fr [OF this] show ?thesis by simp
  next
    case CallStop
    then have "frame h s (step ev s)" using frame_stop [OF p] by simp
    from fr [OF this] show ?thesis by simp
  next
    case ListenError
    then have "frame h s (step ev s)" using frame_step_calls [OF n, of ev] by simp
    from fr [OF this] show ?thesis by simp
  next
    case (Line l q)
    show ?thesis
    proof (cases "readline s = None")
      case True
      then show ?thesis using Line assms by simp
    next
      case False
      then obtain r0 where rd: "readline s = Some r0" by auto
      show ?thesis
      proof (cases q)
        case None
        then have "step ev s = emit_log (''[engine] '' @ l) s"
          using Line rd by (simp add: on_line_def)
        then show ?thesis using fr [OF frame_emit_log, of "''[engine] '' @ l"] by simp
      next
        case (Some r)
        obtain x s1 where hr: "handleResponse r s = (x, s1)" by (cases "handleResponse r s")
        have s1: "session_open h i s1 \<or> settled h s1"
          "get_prop r ''id'' \<noteq> Inr (JStr i) \<longrightarrow> chunks h s1 = chunks h s"
          using session_open_handleResponse [OF assms, of r] hr by simp_all
        have lg: "frame h s1 (emit_log (''[engine] '' @ l) s1)" by (rule frame_emit_log)
        have "session_open h i (emit_log (''[engine] '' @ l) s1) \<or> settled h (emit_log (''[engine] '' @ l) s1)"
          using s1(1) lg by (auto intro: session_open_frame frame_settled)
        moreover have "chunks h (emit_log (''[engine] '' @ l) s1) = chunks h s1"
          using lg by (simp add: frame_def)
        ultimately show ?thesis using Line rd Some hr s1 by (cases x) (simp_all add: on_line_def)
      qed
    qed
  next
    case (Stderr d)
    then have "frame h s (step ev s)" using frame_step_calls [OF n, of ev _ _ _ _ d] by simp
    from fr [OF this] show ?thesis by simp
  next
    case (Exit code)
    then have "frame h s (step ev s)" using frame_on_exit [OF p] by simp
    from fr [OF this] show ?thesis by simp
  next
    case (ProcError e)
    then have "frame h s (step ev s)" using frame_on_error [OF p] by simp
    from fr [OF this] show ?thesis by simp
  next
    case (Timeout t)
    show ?thesis
    proof (cases "thandle t = h")
      case False
      then have "frame h s (step ev s)" using Timeout frame_fire by simp
      from fr [OF this] show ?thesis by simp
    next
      case True
      show ?thesis
      proof (cases "t \<in> set (timers s)")
        case False
        then show ?thesis using Timeout assms by (simp add: fire_def)
      next
        case in_t: True
        then have "t \<in> set (htimers h s)" using True by (simp add: htimers_def)
        then have "t = StreamingTimer h i" using assms by (simp add: session_open_def live_str_def)
        then have "settled h (fire t s)"
          using assms live_str_fire_own [of h i s] by (simp add: session_open_def)
        then show ?thesis using Timeout by simp
      qed
    qed
  qed
qed

lemma session_open_run:
  assumes "session_open h i s"
  shows "(session_open h i (run evs s) \<or> settled h (run evs s))
       \<and> (list_all (\<lambda>ev. \<not> answers i ev) evs \<longrightarrow> chunks h (run evs s) = chunks h s)"
  using assms
proof (induction evs arbitrary: s)
  case Nil
  then show ?case by (simp add: run_def)
next
  case (Cons ev evs)
  have r: "run (ev # evs) s = run evs (step ev s)" by (simp add: run_def)
  from session_open_step [OF Cons.prems, of ev]
  have st: "session_open h i (step ev s) \<or> settled h (step ev s)"
    and ch: "\<not> answers i ev \<longrightarrow> chunks h (step ev s) = chunks h s"
    by simp_all
  from st show ?case
  proof
    assume "session_open h i (step ev s)"
    from Cons.IH [OF this] ch show ?thesis unfolding r by simp
  next
    assume a: "settled h (step ev s)"
    then have "settled h (run evs (step ev s))" by (rule settled_run)
    moreover have "frame h (step ev s) (run evs (step ev s))"
      using a by (intro dead_run) (simp add: settled_def)
    then have "chunks h (run evs (step ev s)) = chunks h (step ev s)" by (simp add: frame_def)
    ultimately show ?thesis using ch unfolding r by simp
  qed
qed

lemma session_open_unsettled:
  assumes "fresh_handles s" "sendStreaming request ident now s = Inr (h, s')"
    and "outcomes h (run evs1 s') = []"
  shows "session_open h ident (run evs1 s')"
proof -
  have "session_open h ident s'"
    using sendStreaming_live [OF assms(1,2)] by (simp add: session_open_def)
  then have "session_open h ident (run evs1 s') \<or> settled h (run evs1 s')"
    using session_open_run by blast
  then show ?thesis using assms(3) by (auto simp: settled_def)
qed

subsection \<open>Timers are armed by calls only\<close>

lemma timers_pending_delete [simp]: "timers (pending_delete v s) = timers s"
  by (cases v) (simp_all add: pending_delete.simps act_def)

lemma timers_call_listener: "set (timers (snd (call_listener l r s))) \<subseteq> set (timers s)"
  by (cases l) (auto simp: Let_def prim_defs split: sum.splits)

lemma timers_emit_response: "set (timers (snd (emit_response ls r s))) \<subseteq> set (timers s)"
proof (induction ls arbitrary: s)
  case Nil
  then show ?case by simp
next
  case (Cons l ls)
  obtain x s1 where c: "call_listener l r s = (x, s1)" by (cases "call_listener l r s")
  have "set (timers s1) \<subseteq> set (timers s)" using timers_call_listener [of l r s] c by simp
  then show ?case using c Cons.IH [of s1] by (cases x) (auto simp del: call_listener.simps)
qed

lemma timers_respond_pending: "set (timers (snd (respond_pending r s))) \<subseteq> set (timers s)"
  by (auto simp: respond_pending_def Let_def prim_defs split: sum.splits option.splits)

lemma timers_handleResponse: "set (timers (snd (handleResponse r s))) \<subseteq> set (timers s)"
proof -
  obtain x s1 where e: "emit_response (listeners s) r s = (x, s1)"
    by (cases "emit_response (listeners s) r s")
  have "set (timers s1) \<subseteq> set (timers s)"
    using timers_emit_response [of "listeners s" r s] e by simp
  then show ?thesis using e timers_respond_pending [of r s1]
    by (cases x) (auto simp: handleResponse_split)
qed

lemma timers_on_line: "set (timers (on_line l p s)) \<subseteq> set (timers s)"
proof (cases p)
  case None
  then show ?thesis by (simp add: on_line_def emit_log_def act_def)
next
  case (Some r)
  obtain x s1 where hr: "handleResponse r s = (x, s1)" by (cases "handleResponse r s")
  then have "set (timers s1) \<subseteq> set (timers s)" using timers_handleResponse [of r s] by simp
  then show ?thesis using Some hr by (cases x) (auto simp: on_line_def emit_log_def act_def)
qed

lemma timers_fold_sweep: "set (timers (fold (sweep_entry error) ps s)) \<subseteq> set (timers s)"
proof (induction ps arbitrary: s)
  case Nil
  then show ?case by simp
next
  case (Cons e ps)
  have "set (timers (sweep_entry error e s)) \<subseteq> set (timers s)"
    by (cases e) (auto simp: sweep_entry_def prim_defs)
  then show ?case using Cons.IH [of "sweep_entry error e s"] by auto
qed

lemma timers_rejectAllPending: "set (timers (rejectAllPending error s)) \<subseteq> set (timers s)"
  using timers_fold_sweep [of error "pending s" s]
  by (simp add: rejectAllPending_sweep pending_clear_def act_def)

lemma timers_fire: "set (timers (fire t s)) \<subseteq> set (timers s)"
  by (cases t)
    (auto simp: fire_def startup_timeout_def request_timeout_def streaming_timeout_def prim_defs)

lemma timers_step:
  assumes "t \<in> set (timers (step ev s))"
  shows "t \<in> set (timers s)
       \<or> (\<exists>x. ev = CallStart x \<and> t = StartupTimer (next_handle s))
       \<or> (\<exists>a k c. ev = CallSend a k c \<and> t = RequestTimer (next_handle s) k)
       \<or> (\<exists>a k c. ev = CallSendStreaming a k c \<and> t = StreamingTimer (next_handle s) k)"
proof (cases ev)
  case (CallStart x)
  then show ?thesis using assms
    by (auto simp: start_def waitForReady_def Let_def prim_defs split: if_splits)
next
  case (CallSend a k c)
  then show ?thesis using assms
    by (auto simp: send_def Let_def prim_defs split: if_splits)
next
  case (CallSendStreaming a k c)
  then show ?thesis using assms
    by (auto simp: sendStreaming_def Let_def prim_defs split: if_splits)
next
  case CallStop
  have "timers (readline_close (kill (s\<lparr>ready := False\<rparr>))) = timers s"
    by (simp add: readline_close_def kill_def act_def split: option.splits)
  then show ?thesis
    using CallStop assms timers_rejectAllPending [of "Error (JStr ''Engine stopped'')"
        "readline_close (kill (s\<lparr>ready := False\<rparr>))"]
    by (auto simp: stop_def)
next
  case ListenError
  then show ?thesis using assms by simp
next
  case (Line l p)
  then show ?thesis using assms timers_on_line [of l p s] by (auto split: if_splits)
next
  case (Stderr x)
  then show ?thesis using assms by (auto simp: on_stderr_def prim_defs split: if_splits)
next
  case (Exit c)
  then show ?thesis
    using assms timers_rejectAllPending [of "ErrorT ''Engine exited with code '' c" "act (EmitExit c) s"]
    by (auto simp: on_exit_def act_def split: if_splits)
next
  case (ProcError e)
  then show ?thesis
    using assms timers_rejectAllPending [of e "act (EmitError e) s"]
    by (auto simp: on_error_def act_def split: if_splits)
next
  case (Timeout t')
  then show ?thesis using assms timers_fire [of t' s] by auto
qed

lemma quiet_step:
  assumes "list_all (\<lambda>t. req_timer_of i t \<longrightarrow> P t) (timers s)" "\<not> sends_id i ev"
  shows "list_all (\<lambda>t. req_timer_of i t \<longrightarrow> P t) (timers (step ev s))"
  unfolding list_all_iff
proof (intro ballI impI)
  fix t
  assume m: "t \<in> set (timers (step ev s))" and r: "req_timer_of i t"
  from timers_step [OF m] r assms(2) have "t \<in> set (timers s)" by auto
  then show "P t" using assms(1) r by (simp add: list_all_iff)
qed

lemma quiet_run:
  assumes "list_all (\<lambda>t. req_timer_of i t \<longrightarrow> P t) (timers s)"
    and "list_all (\<lambda>ev. \<not> sends_id i ev) evs"
  shows "list_all (\<lambda>t. req_timer_of i t \<longrightarrow> P t) (timers (run evs s))"
  using assms unfolding run_def
  by (induction evs arbitrary: s) (simp_all add: quiet_step)

subsection \<open>A unary request under an id of its own\<close>

lemma held_sweep:
  assumes "held h i s"
  shows "settled h (rejectAllPending error s)"
proof -
  have l: "live_req h i s" using assms by (simp add: held_def)
  have "(i, \<lparr>promise = h, timeout = RequestTimer h i\<rparr>) \<in> set (pending s)"
    using assms by (auto simp: held_def dest: map_of_SomeD)
  from sweep_rejects_entry [OF l this, of error]
  have "outcomes h (rejectAllPending error s) = [Reject h error]" by simp
  then show ?thesis using live_req_rejectAllPending [OF l, of error]
    by (auto simp: live_req_def)
qed

lemma held_frame:
  assumes "frame h s s'" "pending s' = pending s" "held h i s"
  shows "held h i s'"
  using assms by (auto simp: held_def intro: frame_live_req)

lemma pending_respond_streaming:
  "js_prop r ''status'' = JStr ''streaming'' \<Longrightarrow> pending (snd (respond_pending r s)) = pending s"
  by (auto simp: respond_pending_def split: sum.splits option.splits)

lemma pending_respond_none:
  "get_prop r ''id'' = Inr v \<Longrightarrow> pending_get s v = None
   \<Longrightarrow> pending (snd (respond_pending r s)) = pending s"
  by (simp add: respond_pending_def)

lemma held_handleResponse:
  assumes "held h i s"
  shows "held h i (snd (handleResponse r s)) \<or> settled h (snd (handleResponse r s))"
proof (cases "get_prop r ''id''")
  case (Inl e)
  then show ?thesis using assms by (simp add: handleResponse_throws)
next
  case (Inr v)
  have l: "live_req h i s" and m: "map_of (pending s) i = Some \<lparr>promise = h, timeout = RequestTimer h i\<rparr>"
    using assms by (simp_all add: held_def)
  obtain x s1 where e: "emit_response (listeners s) r s = (x, s1)"
    by (cases "emit_response (listeners s) r s")
  then have x: "x = None" using emit_response_no_throw [OF Inr, of "listeners s" s] by simp
  have p1: "pending s1 = pending s" using emit_response_pending [of "listeners s" r s] e by simp
  have hs: "snd (handleResponse r s) = snd (respond_pending r s1)"
    using e x by (simp add: handleResponse_split)
  have unchanged: "held h i (snd (handleResponse r s)) \<or> settled h (snd (handleResponse r s))"
    if "pending (snd (respond_pending r s1)) = pending s"
  proof -
    from live_req_handleResponse [OF l, of r] show ?thesis
    proof
      assume "live_req h i (snd (handleResponse r s))"
      then have "held h i (snd (handleResponse r s))" using that m hs by (simp add: held_def)
      then show ?thesis ..
    next
      assume "settled h (snd (handleResponse r s))"
      then show ?thesis ..
    qed
  qed
  show ?thesis
  proof (cases v)
    case (JStr k)
    show ?thesis
    proof (cases "k = i")
      case True
      show ?thesis
      proof (cases "js_prop r ''status'' = JStr ''streaming''")
        case True
        then show ?thesis using unchanged pending_respond_streaming [of r s1] p1 by simp
      next
        case False
        have "get_prop r ''id'' = Inr (JStr i)" using Inr JStr \<open>k = i\<close> by simp
        from handleResponse_own_unary [OF l m this False] show ?thesis by simp
      qed
    next
      case False
      have "get_prop r ''id'' = Inr (JStr k)" using Inr JStr by simp
      from handleResponse_other_id [OF assms this False] show ?thesis by simp
    qed
  qed (use Inr unchanged pending_respond_none [of r _ s1] p1 in simp_all)
qed

lemma held_on_line:
  assumes "held h i s"
  shows "held h i (on_line l p s) \<or> settled h (on_line l p s)"
proof (cases p)
  case None
  have "held h i (emit_log (''[engine] '' @ l) s)"
    using frame_emit_log _ assms by (rule held_frame) (simp add: emit_log_def act_def)
  then show ?thesis using None by (simp add: on_line_def)
next
  case (Some r)
  obtain x s1 where hr: "handleResponse r s = (x, s1)" by (cases "handleResponse r s")
  have s1: "held h i s1 \<or> settled h s1" using held_handleResponse [OF assms, of r] hr by simp
  have lg: "frame h s1 (emit_log (''[engine] '' @ l) s1)" by (rule frame_emit_log)
  have "held h i (emit_log (''[engine] '' @ l) s1) \<or> settled h (emit_log (''[engine] '' @ l) s1)"
    using s1 lg by (auto intro: frame_settled held_frame simp: emit_log_def act_def)
  then show ?thesis using Some hr s1 by (cases x) (simp_all add: on_line_def)
qed

lemma held_fire:
  assumes "sole h i s"
  shows "held h i (fire t s) \<or> settled h (fire t s)"
proof (cases "t \<in> set (timers s)")
  case False
  then show ?thesis using assms by (simp add: fire_def sole_def)
next
  case True
  have hd: "held h i s" using assms by (simp add: sole_def)
  then have l: "live_req h i s" by (simp add: held_def)
  show ?thesis
  proof (cases "t = RequestTimer h i")
    case True
    then show ?thesis using live_req_fire_own [OF l] by simp
  next
    case False
    have nh: "thandle t \<noteq> h"
    proof
      assume "thandle t = h"
      then have "t \<in> set (htimers h s)" using True by (simp add: htimers_def)
      then show False using l False by (simp add: live_req_def)
    qed
    then have "frame h s (fire t s)" by (rule frame_fire)
    then have lv: "live_req h i (fire t s)" using l by (rule frame_live_req)
    have "\<not> req_timer_of i t"
      using assms True False by (auto simp: sole_def list_all_iff)
    then have "map_of (pending (fire t s)) i = map_of (pending s) i"
      using True
      by (cases t)
        (auto simp: fire_def startup_timeout_def request_timeout_def streaming_timeout_def
          prim_defs pending_delete.simps map_of_delete_other)
    then show ?thesis using lv hd by (simp add: held_def)
  qed
qed

lemma held_step:
  assumes "sole h i s" "\<not> sends_id i ev"
  shows "held h i (step ev s) \<or> settled h (step ev s)"
proof -
  have hd: "held h i s" using assms(1) by (simp add: sole_def)
  then have n: "h \<noteq> next_handle s" by (simp add: held_def live_req_def)
  show ?thesis
  proof (cases ev)
    case (CallStart x)
    have "frame h s (step ev s)" using CallStart frame_step_calls [OF n, of ev x] by simp
    moreover have "pending (step ev s) = pending s"
      using CallStart by (auto simp: start_def waitForReady_def Let_def prim_defs)
    ultimately show ?thesis using hd by (auto intro: held_frame)
  next
    case (CallSend a k c)
    then have "k \<noteq> i" using assms(2) by simp
    then show ?thesis using CallSend hd send_other_id [of h i s a k c]
      by (auto split: sum.splits)
  next
    case (CallSendStreaming a k c)
    have "frame h s (step ev s)"
      using CallSendStreaming frame_step_calls [OF n, of ev _ a k c] by simp
    moreover have "pending (step ev s) = pending s"
      using CallSendStreaming by (auto simp: sendStreaming_def Let_def prim_defs)
    ultimately show ?thesis using hd by (auto intro: held_frame)
  next
    case CallStop
    have "held h i (readline_close (kill (s\<lparr>ready := False\<rparr>)))"
      using frame_before_sweep(1) stop_fields(1) hd by (rule held_frame)
    then show ?thesis using CallStop by (simp add: stop_def held_sweep)
  next
    case ListenError
    then show ?thesis using hd by (auto intro: held_frame [OF frame_fields(4)])
  next
    case (Line l p)
    then show ?thesis using hd held_on_line [OF hd, of l p] by simp
  next
    case (Stderr d)
    have "held h i (emit_log (''[engine:stderr] '' @ d) s)"
      using frame_emit_log _ hd by (rule held_frame) (simp add: emit_log_def act_def)
    then show ?thesis using Stderr hd by (simp add: on_stderr_def)
  next
    case (Exit code)
    have "held h i (act (EmitExit code) s)"
      using frame_before_sweep(2) _ hd by (rule held_frame) (simp add: act_def)
    then show ?thesis using Exit hd by (simp add: on_exit_def held_sweep)
  next
    case (ProcError e)
    have "held h i (act (EmitError e) s)"
      using frame_before_sweep(3) _ hd by (rule held_frame) (simp add: act_def)
    then show ?thesis using ProcError hd by (simp add: on_error_def held_sweep)
  next
    case (Timeout t)
    then show ?thesis using held_fire [OF assms(1), of t] by simp
  qed
qed

lemma sole_step:
  assumes "sole h i s" "\<not> sends_id i ev"
  shows "sole h i (step ev s) \<or> settled h (step ev s)"
  using held_step [OF assms] quiet_step [of i "\<lambda>t. t = RequestTimer h i" s ev] assms
  by (auto simp: sole_def)

lemma sole_run:
  assumes "sole h i s" "list_all (\<lambda>ev. \<not> sends_id i ev) evs"
  shows "sole h i (run evs s) \<or> settled h (run evs s)"
  using assms
proof (induction evs arbitrary: s)
  case Nil
  then show ?case by (simp add: run_def)
next
  case (Cons ev evs)
  have r: "run (ev # evs) s = run evs (step ev s)" by (simp add: run_def)
  from sole_step [OF Cons.prems(1), of ev] Cons.prems(2)
  have "sole h i (step ev s) \<or> settled h (step ev s)" by simp
  then show ?case
  proof
    assume "sole h i (step ev s)"
    then show ?thesis using Cons.IH [of "step ev s"] Cons.prems(2) unfolding r by simp
  next
    assume "settled h (step ev s)"
    then show ?thesis unfolding r by (simp add: settled_run)
  qed
qed

lemma send_sole:
  assumes "s = run evs0 (new_bridge path dflt)" "list_all (\<lambda>ev. \<not> sends_id ident ev) evs0"
    and "send request ident now s = Inr (h, s')"
  shows "sole h ident s'"
proof -
  have w: "fresh_handles s" using assms(1) by (simp add: fresh_reachable)
  have "list_all (\<lambda>t. req_timer_of ident t \<longrightarrow> False) (timers (run evs0 (new_bridge path dflt)))"
    using _ assms(2) by (rule quiet_run) (simp add: new_bridge_def)
  then have q: "list_all (\<lambda>t. \<not> req_timer_of ident t) (timers s)" using assms(1) by simp
  have "timers s' = timers s @ [RequestTimer h ident]"
    using assms(3) by (auto simp: send_def Let_def prim_defs split: if_splits)
  then have "list_all (\<lambda>t. req_timer_of ident t \<longrightarrow> t = RequestTimer h ident) (timers s')"
    using q by (auto simp: list_all_iff)
  moreover have "held h ident s'"
    using send_live [OF w assms(3)] send_registered [OF assms(3)] by (simp add: held_def)
  ultimately show ?thesis by (simp add: sole_def)
qed

section \<open>The claims\<close>

subsection \<open>C1: Exactly-once settlement\<close>

text \<open>
  C1. Exactly-once settlement. Take any state the bridge can reach and a call of \<open>send\<close>
  or \<open>sendStreaming\<close> that returns the promise \<open>h\<close>. Whatever happens afterwards
  (responses, timers, process exit or error, stop, other calls, in any order), \<open>resolve\<close>
  and \<open>reject\<close> of \<open>h\<close> are called at most once in total; and once the call's own timer
  has come due (fired, or found cancelled), they have been called exactly once.
\<close>

theorem exactly_once:
  assumes "s = run evs0 (new_bridge path dflt)"
    and "(send request ident now s = Inr (h, s') \<and> t = RequestTimer h ident)
       \<or> (sendStreaming request ident now s = Inr (h, s') \<and> t = StreamingTimer h ident)"
  shows "outcomes h s' = []
       \<and> length (outcomes h (run evs s')) \<le> 1
       \<and> length (outcomes h (run (evs1 @ Timeout t # evs2) s')) = 1"
proof -
  have w: "fresh_handles s" using assms(1) by (simp add: fresh_reachable)
  have split: "run (evs1 @ Timeout t # evs2) s' = run evs2 (fire t (run evs1 s'))"
    by (simp add: run_def)
  from assms(2) show ?thesis
  proof (elim disjE conjE)
    assume c: "send request ident now s = Inr (h, s')" and t: "t = RequestTimer h ident"
    have l: "live_req h ident s'" using send_live [OF w c] by simp
    have a: "outcomes h s' = []" using l by (simp add: live_req_def)
    have "live_req h ident (run evs s') \<or> settled h (run evs s')"
      using l by (intro live_req_run) simp
    then have b: "length (outcomes h (run evs s')) \<le> 1"
      by (auto simp: live_req_def settled_def)
    have "live_req h ident (run evs1 s') \<or> settled h (run evs1 s')"
      using l by (intro live_req_run) simp
    then have "settled h (fire t (run evs1 s'))"
    proof
      assume "live_req h ident (run evs1 s')"
      then show ?thesis unfolding t by (rule live_req_fire_own)
    next
      assume "settled h (run evs1 s')"
      then show ?thesis using settled_step [of h "run evs1 s'" "Timeout t"] by simp
    qed
    then have "settled h (run evs2 (fire t (run evs1 s')))" by (rule settled_run)
    then show ?thesis using a b split by (simp add: settled_def)
  next
    assume c: "sendStreaming request ident now s = Inr (h, s')" and t: "t = StreamingTimer h ident"
    have l: "live_str h ident s'" using sendStreaming_live [OF w c] by simp
    have a: "outcomes h s' = []" using l by (simp add: live_str_def)
    have "live_str h ident (run evs s') \<or> settled h (run evs s')"
      using l by (intro live_str_run) simp
    then have b: "length (outcomes h (run evs s')) \<le> 1"
      by (auto simp: live_str_def settled_def)
    have "live_str h ident (run evs1 s') \<or> settled h (run evs1 s')"
      using l by (intro live_str_run) simp
    then have "settled h (fire t (run evs1 s'))"
    proof
      assume "live_str h ident (run evs1 s')"
      then show ?thesis unfolding t by (rule live_str_fire_own)
    next
      assume "settled h (run evs1 s')"
      then show ?thesis using settled_step [of h "run evs1 s'" "Timeout t"] by simp
    qed
    then have "settled h (run evs2 (fire t (run evs1 s')))" by (rule settled_run)
    then show ?thesis using a b split by (simp add: settled_def)
  qed
qed

theorem exactly_once_witness:
  "(case send [(''action'', JStr ''index'')] ''u1'' ''t1'' booted of
      Inl e \<Rightarrow> False
    | Inr (h, s') \<Rightarrow>
        h = 1 \<and> outcomes h s' = []
        \<and> length (outcomes h (run [CallStop] s')) \<le> 1
        \<and> length (outcomes h (run ([Exit (JNum 1)] @ Timeout (RequestTimer h ''u1'')
               # [Line ''late'' (Some (JObj [(''id'', JStr ''u1''), (''status'', JStr ''success'')]))]) s')) = 1)
   \<and> (case sendStreaming [(''action'', JStr ''query'')] ''u2'' ''t2'' booted of
      Inl e \<Rightarrow> False
    | Inr (h, s') \<Rightarrow>
        h = 1 \<and> outcomes h s' = []
        \<and> length (outcomes h (run [Exit (JNum 1), CallStop] s')) \<le> 1
        \<and> length (outcomes h (run ([Exit (JNum 1), CallStop] @ Timeout (StreamingTimer h ''u2'')
               # [Line ''late'' (Some (JObj [(''id'', JStr ''u2''), (''status'', JStr ''success'')]))]) s')) = 1)"
proof -
  have b: "booted = run [CallStart (\<lambda>p. True), Line ready_text (Some ready_line)]
              (new_bridge None ''/opt/engine'')"
    by (simp add: booted_def)
  obtain s' where c: "send [(''action'', JStr ''index'')] ''u1'' ''t1'' booted = Inr (1, s')"
    by (simp add: send_def Let_def booted_fields)
  then have "(send [(''action'', JStr ''index'')] ''u1'' ''t1'' booted = Inr (1, s')
          \<and> RequestTimer 1 ''u1'' = RequestTimer 1 ''u1'')
      \<or> (sendStreaming [(''action'', JStr ''index'')] ''u1'' ''t1'' booted = Inr (1, s')
          \<and> RequestTimer 1 ''u1'' = StreamingTimer 1 ''u1'')"
    by simp
  from exactly_once [OF b this, of "[CallStop]" "[Exit (JNum 1)]"
      "[Line ''late'' (Some (JObj [(''id'', JStr ''u1''), (''status'', JStr ''success'')]))]"]
  have unary: "outcomes 1 s' = []
        \<and> length (outcomes 1 (run [CallStop] s')) \<le> 1
        \<and> length (outcomes 1 (run ([Exit (JNum 1)] @ Timeout (RequestTimer 1 ''u1'')
               # [Line ''late'' (Some (JObj [(''id'', JStr ''u1''), (''status'', JStr ''success'')]))]) s')) = 1"
    by simp
  obtain s'' where d: "sendStreaming [(''action'', JStr ''query'')] ''u2'' ''t2'' booted = Inr (1, s'')"
    by (simp add: sendStreaming_def Let_def booted_fields)
  then have "(send [(''action'', JStr ''query'')] ''u2'' ''t2'' booted = Inr (1, s'')
          \<and> StreamingTimer 1 ''u2'' = RequestTimer 1 ''u2'')
      \<or> (sendStreaming [(''action'', JStr ''query'')] ''u2'' ''t2'' booted = Inr (1, s'')
          \<and> StreamingTimer 1 ''u2'' = StreamingTimer 1 ''u2'')"
    by simp
  from exactly_once [OF b this, of "[Exit (JNum 1), CallStop]" "[Exit (JNum 1), CallStop]"
      "[Line ''late'' (Some (JObj [(''id'', JStr ''u2''), (''status'', JStr ''success'')]))]"]
  have streaming: "outcomes 1 s'' = []
        \<and> length (outcomes 1 (run [Exit (JNum 1), CallStop] s'')) \<le> 1
        \<and> length (outcomes 1 (run ([Exit (JNum 1), CallStop] @ Timeout (StreamingTimer 1 ''u2'')
               # [Line ''late'' (Some (JObj [(''id'', JStr ''u2''), (''status'', JStr ''success'')]))]) s'')) = 1"
    by simp
  show ?thesis using c d unary streaming by simp
qed

subsection \<open>C2: The sweep on exit\<close>

text \<open>
  C2 fails on the code. With one unary request pending and one streaming session open,
  the worker's exit rejects the unary request and empties \<open>pending\<close>, but the session is
  not touched: its promise is not settled, its handler stays registered and its timer
  stays armed (\<open>rejectAllPending\<close> walks \<open>pending\<close> only, and a session is never entered
  there). And on a transport error with no listener for \<^verbatim>\<open>'error'\<close> on the bridge, the
  emit throws before the sweep, so nothing is rejected at all.
\<close>

theorem exit_leaves_streaming_session:
  "(let s = run [CallSend [(''action'', JStr ''index'')] ''u1'' ''t1'',
                 CallSendStreaming [(''action'', JStr ''query'')] ''u2'' ''t2'',
                 Exit (JNum 1)] booted
    in pending s = []
     \<and> outcomes 1 s = [Reject 1 (ErrorT ''Engine exited with code '' (JNum 1))]
     \<and> outcomes 2 s = []
     \<and> listeners s = [StreamHandler 2 ''u2'']
     \<and> timers s = [StreamingTimer 2 ''u2''])
   \<and> (let s = run [CallSend [(''action'', JStr ''index'')] ''u1'' ''t1'',
                    ProcError (RuntimeError ''EPIPE'')] booted
       in outcomes 1 s = []
        \<and> pending s = [(''u1'', \<lparr>promise = 1, timeout = RequestTimer 1 ''u1''\<rparr>)])"
  by (simp add: booted_def run_defs prim_defs send_def sendStreaming_def on_exit_def on_error_def
      rejectAllPending_def outcomes_def)

subsection \<open>C3: Readiness gating\<close>

text \<open>
  C3. Before the ready flag is set, \<open>send\<close> and \<open>sendStreaming\<close> fail with the error
  "Engine not ready", and any sequence of such calls leaves the whole state as it was: in
  particular nothing is written to the worker's input stream and the bridge is still not
  ready.
\<close>

theorem not_ready_send_fails:
  assumes "\<not> ready s" and "list_all is_send_call calls"
  shows "send request ident now s = Inl (Error (JStr ''Engine not ready''))
       \<and> sendStreaming request ident now s = Inl (Error (JStr ''Engine not ready''))
       \<and> run calls s = s
       \<and> writes (run calls s) = writes s
       \<and> \<not> ready (run calls s)"
  using assms by (simp add: send_def sendStreaming_def run_send_not_ready)

theorem not_ready_send_fails_witness:
  "\<not> ready (new_bridge None ''/opt/engine'')
   \<and> list_all is_send_call
        [CallSend [(''action'', JStr ''index'')] ''u1'' ''t1'',
         CallSendStreaming [(''action'', JStr ''query'')] ''u2'' ''t2'']
   \<and> send [(''action'', JStr ''index'')] ''u1'' ''t1'' (new_bridge None ''/opt/engine'')
       = Inl (Error (JStr ''Engine not ready''))
   \<and> sendStreaming [(''action'', JStr ''index'')] ''u1'' ''t1'' (new_bridge None ''/opt/engine'')
       = Inl (Error (JStr ''Engine not ready''))
   \<and> run [CallSend [(''action'', JStr ''index'')] ''u1'' ''t1'',
           CallSendStreaming [(''action'', JStr ''query'')] ''u2'' ''t2'']
          (new_bridge None ''/opt/engine'') = new_bridge None ''/opt/engine''
   \<and> writes (new_bridge None ''/opt/engine'') = []"
proof -
  have r: "\<not> ready (new_bridge None ''/opt/engine'')"
    by (simp add: new_bridge_def)
  have c: "list_all is_send_call
        [CallSend [(''action'', JStr ''index'')] ''u1'' ''t1'',
         CallSendStreaming [(''action'', JStr ''query'')] ''u2'' ''t2'']"
    by simp
  have w: "writes (new_bridge None ''/opt/engine'') = []"
    by (simp add: writes_def new_bridge_def)
  show ?thesis
    using not_ready_send_fails [OF r c, of "[(''action'', JStr ''index'')]" "''u1''" "''t1''"] r c w
    by simp
qed

subsection \<open>C4: The readiness gate\<close>

text \<open>
  C4 as stated fails. A ready line that arrives after the startup timeout has rejected
  \<^verbatim>\<open>start()\<close> still sets the ready flag (the timeout leaves the handler registered),
  and a stopped bridge becomes ready again when \<^verbatim>\<open>start()\<close> is called on the same
  instance and the new worker reports ready. A handler left by a \<^verbatim>\<open>start()\<close> that got
  no ready line also outlives \<^verbatim>\<open>stop()\<close>: after two calls of \<^verbatim>\<open>start()\<close> and a
  \<^verbatim>\<open>stop()\<close>, which closes the second line reader only, a ready line of the first
  worker sets the flag.
\<close>

theorem gate_reentered:
  "ready (run [CallStart (\<lambda>p. True), Timeout (StartupTimer 0),
               Line ready_text (Some ready_line)]
            (new_bridge None ''/opt/engine''))
   \<and> outcomes 0 (run [CallStart (\<lambda>p. True), Timeout (StartupTimer 0)] (new_bridge None ''/opt/engine''))
       = [Reject 0 (Error (JStr ''Engine startup timeout''))]
   \<and> \<not> ready (run [CallStop] booted)
   \<and> ready (run [CallStop, CallStart (\<lambda>p. True),
                  Line ready_text (Some ready_line)] booted)
   \<and> ready (run [CallStart (\<lambda>p. True), CallStart (\<lambda>p. True), CallStop,
                  Line ready_text (Some ready_line)] (new_bridge None ''/opt/engine''))"
  by (simp add: booted_def run_defs prim_defs outcomes_def fire_def startup_timeout_def
      stop_def kill_def readline_close_def rejectAllPending_def)

text \<open>
  C4, as amended. \<^verbatim>\<open>stop()\<close> on a bridge on which no \<^verbatim>\<open>start()\<close> is still waiting
  for the ready line (no handler of \<^verbatim>\<open>waitForReady\<close> is registered) leaves it not
  ready, and it stays so, every \<open>send\<close> and \<open>sendStreaming\<close> failing with "Engine not
  ready", whatever lines, process events, timers and calls follow, for as long as
  \<^verbatim>\<open>start()\<close> is not called on it again. A later \<^verbatim>\<open>start()\<close> on the same instance
  opens a new gate: the ready line that follows sets the flag.
\<close>

theorem gate_after_stop:
  assumes "list_all (\<lambda>l. \<not> is_ready_handler l) (listeners s)"
    and "list_all (\<lambda>ev. \<not> is_start ev) evs"
  shows "\<not> ready (run evs (stop s))
       \<and> send request ident now (run evs (stop s)) = Inl (Error (JStr ''Engine not ready''))
       \<and> sendStreaming request ident now (run evs (stop s)) = Inl (Error (JStr ''Engine not ready''))
       \<and> (start existsSync (run evs (stop s)) = Inr (h, s1)
            \<and> get_prop response ''id'' = Inr (JStr ''ready'')
          \<longrightarrow> ready (step (Line line (Some response)) s1))"
proof -
  have "closed_gate (stop s)" using assms(1) by (rule closed_gate_stop)
  then have "closed_gate (run evs (stop s))" using assms(2) by (rule closed_gate_run)
  then have "\<not> ready (run evs (stop s))
       \<and> send request ident now (run evs (stop s)) = Inl (Error (JStr ''Engine not ready''))
       \<and> sendStreaming request ident now (run evs (stop s)) = Inl (Error (JStr ''Engine not ready''))"
    by (simp add: closed_gate_def send_def sendStreaming_def)
  moreover have "start existsSync (run evs (stop s)) = Inr (h, s1)
            \<and> get_prop response ''id'' = Inr (JStr ''ready'')
          \<longrightarrow> ready (step (Line line (Some response)) s1)"
    using start_then_ready by blast
  ultimately show ?thesis by blast
qed

theorem gate_after_stop_witness:
  "list_all (\<lambda>l. \<not> is_ready_handler l) (listeners booted)
   \<and> list_all (\<lambda>ev. \<not> is_start ev)
     [Line ready_text (Some ready_line), Exit JNull,
      CallSend [(''action'', JStr ''index'')] ''u1'' ''t1'']
   \<and> \<not> ready (run [Line ready_text (Some ready_line), Exit JNull,
                    CallSend [(''action'', JStr ''index'')] ''u1'' ''t1''] (stop booted))
   \<and> send [(''action'', JStr ''index'')] ''u2'' ''t2''
        (run [Line ready_text (Some ready_line), Exit JNull,
              CallSend [(''action'', JStr ''index'')] ''u1'' ''t1''] (stop booted))
       = Inl (Error (JStr ''Engine not ready''))
   \<and> get_prop ready_line ''id'' = Inr (JStr ''ready'')
   \<and> (case start (\<lambda>p. True) (run [Line ready_text (Some ready_line), Exit JNull,
              CallSend [(''action'', JStr ''index'')] ''u1'' ''t1''] (stop booted)) of
        Inl e \<Rightarrow> False
      | Inr (h, s1) \<Rightarrow> h = 1 \<and> ready (step (Line ready_text (Some ready_line)) s1))"
proof -
  let ?evs = "[Line ready_text (Some ready_line), Exit JNull,
      CallSend [(''action'', JStr ''index'')] ''u1'' ''t1'']"
  have l: "list_all (\<lambda>ev. \<not> is_start ev) ?evs" by simp
  have g: "list_all (\<lambda>l. \<not> is_ready_handler l) (listeners booted)"
    by (simp add: booted_fields)
  have i: "get_prop ready_line ''id'' = Inr (JStr ''ready'')"
    by (simp add: ready_line_def get_prop_def)
  have n: "next_handle (run ?evs (stop booted)) = 1"
    by (simp add: booted_def run_defs prim_defs stop_def kill_def readline_close_def
        rejectAllPending_def on_exit_def send_def)
  obtain s1 where c: "start (\<lambda>p. True) (run ?evs (stop booted)) = Inr (1, s1)"
    using n by (simp add: start_def waitForReady_def Let_def)
  from gate_after_stop [OF g l, where request = "[(''action'', JStr ''index'')]"
      and ident = "''u2''" and now = "''t2''" and existsSync = "\<lambda>p. True" and h = 1 and ?s1.0 = s1
      and response = ready_line and line = ready_text]
  show ?thesis using l g i c by simp
qed

subsection \<open>C5: Lines that are not protocol messages\<close>




subsection \<open>C6: Dangling responses\<close>

text \<open>
  C6. Dangling response drop. A response whose id is registered nowhere (no entry of
  \<open>pending\<close> under it and no handler that acts on it, for example because the request's
  timeout has fired and deleted the entry) is dropped: \<open>handleResponse\<close> throws nothing and
  returns the state unchanged, so no promise is settled, nothing is logged and the rest
  of \<open>pending\<close> stays as it is.
\<close>

theorem dangling_response_dropped:
  assumes "get_prop response ''id'' = Inr v"
    and "pending_get s v = None"
    and "list_all (\<lambda>l. \<not> listens_for l v) (listeners s)"
  shows "handleResponse response s = (None, s) \<and> on_line line (Some response) s = s"
  using assms by (simp add: handleResponse_def on_line_def emit_response_ignores)

theorem dangling_response_dropped_witness:
  "(case send [(''action'', JStr ''index'')] ''u1'' ''t1'' booted of
      Inl e \<Rightarrow> False
    | Inr (h, s') \<Rightarrow>
        get_prop (JObj [(''id'', JStr ''u1''), (''status'', JStr ''success'')]) ''id'' = Inr (JStr ''u1'')
        \<and> pending_get (fire (RequestTimer h ''u1'') s') (JStr ''u1'') = None
        \<and> list_all (\<lambda>l. \<not> listens_for l (JStr ''u1'')) (listeners (fire (RequestTimer h ''u1'') s'))
        \<and> outcomes h (fire (RequestTimer h ''u1'') s') = [Reject h (Error (JStr ''Request timeout (60s)''))]
        \<and> on_line ''late'' (Some (JObj [(''id'', JStr ''u1''), (''status'', JStr ''success'')]))
             (fire (RequestTimer h ''u1'') s')
           = fire (RequestTimer h ''u1'') s')"
proof -
  let ?r = "JObj [(''id'', JStr ''u1''), (''status'', JStr ''success'')]"
  obtain s' where c: "send [(''action'', JStr ''index'')] ''u1'' ''t1'' booted = Inr (1, s')"
    by (simp add: send_def Let_def booted_fields)
  have i: "get_prop ?r ''id'' = Inr (JStr ''u1'')" by (simp add: get_prop_def)
  have f: "pending_get (fire (RequestTimer 1 ''u1'') s') (JStr ''u1'') = None"
    "list_all (\<lambda>l. \<not> listens_for l (JStr ''u1'')) (listeners (fire (RequestTimer 1 ''u1'') s'))"
    "outcomes 1 (fire (RequestTimer 1 ''u1'') s') = [Reject 1 (Error (JStr ''Request timeout (60s)''))]"
    using c
    by (auto simp: send_def Let_def booted_fields fire_def request_timeout_def prim_defs
        pending_delete.simps outcomes_def booted_def run_defs)
  from dangling_response_dropped [OF i f(1) f(2), of "''late''"] c i f
  show ?thesis by simp
qed

subsection \<open>C7: Success as stream\<close>

text \<open>
  C7. Success as stream. Take a streaming session opened in any reachable state and any
  later state in which it is still unsettled. A message of status "success" with its id
  then adds exactly one call of its sink, with the chunk
  \<^verbatim>\<open>{ type: 'done', data: response.data }\<close>, and resolves its promise; nothing that
  happens later adds a chunk or a second settlement. When no message with the session's
  id came before, that call is the only call of the sink.
\<close>

theorem success_as_stream:
  assumes "s = run evs0 (new_bridge path dflt)"
    and "sendStreaming request ident now s = Inr (h, s')"
    and "get_prop response ''id'' = Inr (JStr ident)"
    and "js_prop response ''status'' = JStr ''success''"
  shows "chunks h s' = [] \<and> outcomes h s' = []
       \<and> (outcomes h (run evs1 s') = [] \<longrightarrow>
            chunks h (run evs (on_line line (Some response) (run evs1 s')))
              = chunks h (run evs1 s')
                @ [OnChunk h (JObj [(''type'', JStr ''done''), (''data'', js_prop response ''data'')])]
          \<and> outcomes h (run evs (on_line line (Some response) (run evs1 s'))) = [Resolve h JUndefined]
          \<and> (list_all (\<lambda>ev. \<not> answers ident ev) evs1 \<longrightarrow> chunks h (run evs1 s') = []))"
proof -
  have w: "fresh_handles s" using assms(1) by (simp add: fresh_reachable)
  have l: "session_open h ident s'" "chunks h s' = []" "outcomes h s' = []"
    using sendStreaming_live [OF w assms(2)] by (simp_all add: session_open_def live_str_def)
  have "chunks h (run evs (on_line line (Some response) (run evs1 s')))
              = chunks h (run evs1 s')
                @ [OnChunk h (JObj [(''type'', JStr ''done''), (''data'', js_prop response ''data'')])]
          \<and> outcomes h (run evs (on_line line (Some response) (run evs1 s'))) = [Resolve h JUndefined]
          \<and> (list_all (\<lambda>ev. \<not> answers ident ev) evs1 \<longrightarrow> chunks h (run evs1 s') = [])"
    if u: "outcomes h (run evs1 s') = []"
  proof -
    define t where "t = run evs1 s'"
    have o: "session_open h ident t"
      using session_open_unsettled [OF w assms(2) u] by (simp add: t_def)
    obtain x t1 where hr: "handleResponse response t = (x, t1)"
      by (cases "handleResponse response t")
    have r: "x = None" "settled h t1" "chunks h t1 = chunks h t @ [OnChunk h (done_chunk response)]"
      "outcomes h t1 = [Resolve h JUndefined]"
      using handleResponse_own_success [of h ident t response] o assms(3,4) hr
      by (simp_all add: session_open_def)
    have ol: "on_line line (Some response) t = t1" using hr r(1) by (simp add: on_line_def)
    have "dead h t1" using r(2) by (simp add: settled_def)
    then have "frame h t1 (run evs t1)" by (rule dead_run)
    then have a: "chunks h (run evs (on_line line (Some response) t))
                    = chunks h t @ [OnChunk h (done_chunk response)]"
      "outcomes h (run evs (on_line line (Some response) t)) = [Resolve h JUndefined]"
      using r ol by (simp_all add: frame_def)
    have "list_all (\<lambda>ev. \<not> answers ident ev) evs1 \<longrightarrow> chunks h t = []"
      using session_open_run [OF l(1), of evs1] l(2) by (simp add: t_def)
    then show ?thesis using a by (simp add: t_def done_chunk_def)
  qed
  then show ?thesis using l by blast
qed

theorem success_as_stream_witness:
  "(case sendStreaming [(''action'', JStr ''query'')] ''u2'' ''t2'' booted of
      Inl e \<Rightarrow> False
    | Inr (h, s') \<Rightarrow>
        h = 1
        \<and> get_prop (JObj [(''id'', JStr ''u2''), (''status'', JStr ''success''), (''data'', JStr ''answer'')]) ''id''
            = Inr (JStr ''u2'')
        \<and> outcomes h (run [CallSendStreaming [(''action'', JStr ''query'')] ''u3'' ''t3'',
                             Stderr ''loading'', Timeout (StreamingTimer 2 ''u3'')] s') = []
        \<and> list_all (\<lambda>ev. \<not> answers ''u2'' ev)
              [CallSendStreaming [(''action'', JStr ''query'')] ''u3'' ''t3'',
               Stderr ''loading'', Timeout (StreamingTimer 2 ''u3'')]
        \<and> chunks h (run [Timeout (StreamingTimer h ''u2''), CallStop]
             (on_line ''x'' (Some (JObj [(''id'', JStr ''u2''), (''status'', JStr ''success''), (''data'', JStr ''answer'')]))
               (run [CallSendStreaming [(''action'', JStr ''query'')] ''u3'' ''t3'',
                     Stderr ''loading'', Timeout (StreamingTimer 2 ''u3'')] s')))
            = [OnChunk h (JObj [(''type'', JStr ''done''), (''data'', JStr ''answer'')])]
        \<and> outcomes h (run [Timeout (StreamingTimer h ''u2''), CallStop]
             (on_line ''x'' (Some (JObj [(''id'', JStr ''u2''), (''status'', JStr ''success''), (''data'', JStr ''answer'')]))
               (run [CallSendStreaming [(''action'', JStr ''query'')] ''u3'' ''t3'',
                     Stderr ''loading'', Timeout (StreamingTimer 2 ''u3'')] s')))
            = [Resolve h JUndefined])"
proof -
  let ?r = "JObj [(''id'', JStr ''u2''), (''status'', JStr ''success''), (''data'', JStr ''answer'')]"
  let ?evs1 = "[CallSendStreaming [(''action'', JStr ''query'')] ''u3'' ''t3'',
                Stderr ''loading'', Timeout (StreamingTimer 2 ''u3'')]"
  obtain s' where c: "sendStreaming [(''action'', JStr ''query'')] ''u2'' ''t2'' booted = Inr (1, s')"
    by (simp add: sendStreaming_def Let_def booted_fields)
  have b: "booted = run [CallStart (\<lambda>p. True), Line ready_text (Some ready_line)]
              (new_bridge None ''/opt/engine'')"
    by (simp add: booted_def)
  have i: "get_prop ?r ''id'' = Inr (JStr ''u2'')" by (simp add: get_prop_def)
  have st: "js_prop ?r ''status'' = JStr ''success''" by simp
  have u: "outcomes 1 (run ?evs1 s') = []"
    using c
    by (auto simp: sendStreaming_def booted_def run_defs prim_defs outcomes_def on_stderr_def
        fire_def streaming_timeout_def)
  have q: "list_all (\<lambda>ev. \<not> answers ''u2'' ev) ?evs1" by simp
  from success_as_stream [OF b c i st, of ?evs1 "[Timeout (StreamingTimer 1 ''u2''), CallStop]" "''x''"]
  show ?thesis using c i u q by simp
qed

subsection \<open>C8: Worker errors\<close>

text \<open>
  C8 as stated fails: the rejection carries neither the worker's code nor its details.
  Two error messages that differ in both leave the bridge in the same state, with the
  same rejection.
\<close>

theorem worker_error_code_dropped:
  "(case send [(''action'', JStr ''index'')] ''u1'' ''t1'' booted of
      Inl e \<Rightarrow> False
    | Inr (h, s') \<Rightarrow>
        outcomes h (on_line ''a''
            (Some (worker_error ''u1'' ''OLLAMA_UNAVAILABLE'' (JObj [(''port'', JNum 11434)]) ''no model server'')) s')
          = [Reject h (Error (JStr ''no model server''))]
        \<and> on_line ''a''
            (Some (worker_error ''u1'' ''OLLAMA_UNAVAILABLE'' (JObj [(''port'', JNum 11434)]) ''no model server'')) s'
          = on_line ''a''
            (Some (worker_error ''u1'' ''INDEX_FAILED'' JNull ''no model server'')) s')"
  by (simp add: send_def booted_def ready_text_def worker_error_def run_defs prim_defs
      pending_delete.simps error_message_def opt_prop_def outcomes_def)

text \<open>
  C8, as amended. A unary request answered with a message of status "error" is rejected,
  once, with an \<open>Error\<close> built from the worker's \<^verbatim>\<open>error.message\<close> alone; when that is
  absent or falsy the message is "Unknown error". This holds for a message handled right
  after the call, and, the request's id being used by no other call of \<open>send\<close>, for a
  message handled at any later time at which the request is still unsettled.
\<close>

theorem worker_error_message_only:
  assumes "s = run evs0 (new_bridge path dflt)"
    and "send request ident now s = Inr (h, s')"
    and "get_prop response ''id'' = Inr (JStr ident)"
    and "js_prop response ''status'' = JStr ''error''"
  shows "outcomes h (run evs (on_line line (Some response) s'))
           = [Reject h (Error (error_message response))]
       \<and> (list_all (\<lambda>ev. \<not> sends_id ident ev) (evs0 @ evs1) \<and> outcomes h (run evs1 s') = []
          \<longrightarrow> outcomes h (run evs (on_line line (Some response) (run evs1 s')))
                = [Reject h (Error (error_message response))])
       \<and> error_message response
           = (if truthy (opt_prop (js_prop response ''error'') ''message'')
              then opt_prop (js_prop response ''error'') ''message''
              else JStr ''Unknown error'')"
proof -
  have ns: "js_prop response ''status'' \<noteq> JStr ''streaming''" using assms(4) by simp
  have a: "outcomes h (run evs (on_line line (Some response) s'))
           = [Reject h (Error (error_message response))]"
    using unary_response [OF assms(1,2,3) ns, where line = line and evs = evs] assms(4) by simp
  have b: "outcomes h (run evs (on_line line (Some response) (run evs1 s')))
                = [Reject h (Error (error_message response))]"
    if u: "list_all (\<lambda>ev. \<not> sends_id ident ev) (evs0 @ evs1)" "outcomes h (run evs1 s') = []"
  proof -
    define t where "t = run evs1 s'"
    have "sole h ident s'" using assms(1) _ assms(2) by (rule send_sole) (use u(1) in simp)
    then have "sole h ident t \<or> settled h t"
      unfolding t_def by (rule sole_run) (use u(1) in simp)
    then have hd: "held h ident t" using u(2) by (auto simp: t_def sole_def settled_def)
    then have l: "live_req h ident t"
      and m: "map_of (pending t) ident = Some \<lparr>promise = h, timeout = RequestTimer h ident\<rparr>"
      by (simp_all add: held_def)
    obtain x t1 where hr: "handleResponse response t = (x, t1)"
      by (cases "handleResponse response t")
    have r: "x = None" "settled h t1" "outcomes h t1 = [Reject h (Error (error_message response))]"
      using handleResponse_own_unary [OF l m assms(3) ns] hr assms(4) by simp_all
    have ol: "on_line line (Some response) t = t1" using hr r(1) by (simp add: on_line_def)
    have "dead h t1" using r(2) by (simp add: settled_def)
    then have "frame h t1 (run evs t1)" by (rule dead_run)
    then show ?thesis using r ol by (simp add: frame_def t_def)
  qed
  show ?thesis using a b by (simp add: error_message_def Let_def)
qed

theorem worker_error_message_only_witness:
  "(case send [(''action'', JStr ''index'')] ''u1'' ''t1'' booted of
      Inl e \<Rightarrow> False
    | Inr (h, s') \<Rightarrow>
        get_prop (worker_error ''u1'' ''INDEX_FAILED'' JNull ''disk full'') ''id'' = Inr (JStr ''u1'')
        \<and> js_prop (worker_error ''u1'' ''INDEX_FAILED'' JNull ''disk full'') ''status'' = JStr ''error''
        \<and> list_all (\<lambda>ev. \<not> sends_id ''u1'' ev)
              ([CallStart (\<lambda>p. True), Line ready_text (Some ready_line)]
               @ [CallSend [(''action'', JStr ''query'')] ''u2'' ''t2'', Timeout (RequestTimer 2 ''u2'')])
        \<and> outcomes h (run [CallSend [(''action'', JStr ''query'')] ''u2'' ''t2'',
                             Timeout (RequestTimer 2 ''u2'')] s') = []
        \<and> outcomes h (run [Timeout (RequestTimer h ''u1''), CallStop]
             (on_line ''a'' (Some (worker_error ''u1'' ''INDEX_FAILED'' JNull ''disk full'')) s'))
          = [Reject h (Error (JStr ''disk full''))]
        \<and> outcomes h (run [Timeout (RequestTimer h ''u1''), CallStop]
             (on_line ''a'' (Some (worker_error ''u1'' ''INDEX_FAILED'' JNull ''disk full''))
               (run [CallSend [(''action'', JStr ''query'')] ''u2'' ''t2'',
                     Timeout (RequestTimer 2 ''u2'')] s')))
          = [Reject h (Error (JStr ''disk full''))])"
proof -
  let ?r = "worker_error ''u1'' ''INDEX_FAILED'' JNull ''disk full''"
  let ?evs1 = "[CallSend [(''action'', JStr ''query'')] ''u2'' ''t2'', Timeout (RequestTimer 2 ''u2'')]"
  obtain s' where c: "send [(''action'', JStr ''index'')] ''u1'' ''t1'' booted = Inr (1, s')"
    by (simp add: send_def Let_def booted_fields)
  have b: "booted = run [CallStart (\<lambda>p. True), Line ready_text (Some ready_line)]
              (new_bridge None ''/opt/engine'')"
    by (simp add: booted_def ready_text_def)
  have i: "get_prop ?r ''id'' = Inr (JStr ''u1'')" "js_prop ?r ''status'' = JStr ''error''"
    by (simp_all add: get_prop_def worker_error_def)
  have m: "error_message ?r = JStr ''disk full''"
    by (simp add: error_message_def worker_error_def opt_prop_def)
  have q: "list_all (\<lambda>ev. \<not> sends_id ''u1'' ev)
              ([CallStart (\<lambda>p. True), Line ready_text (Some ready_line)] @ ?evs1)"
    by simp
  have u: "outcomes 1 (run ?evs1 s') = []"
    using c
    by (auto simp: send_def booted_def run_defs prim_defs outcomes_def fire_def
        request_timeout_def pending_delete.simps)
  from worker_error_message_only [OF b c i, where evs = "[Timeout (RequestTimer 1 ''u1''), CallStop]"
      and line = "''a''" and ?evs1.0 = ?evs1]
  show ?thesis using c i m q u by simp
qed

subsection \<open>C9: Stop\<close>

text \<open>
  C9 fails on the code, by the defect of C2. \<^verbatim>\<open>stop()\<close> sweeps \<open>pending\<close> only, so with
  one unary request pending and one streaming session open it rejects the unary request
  with "Engine stopped" and leaves the session as it is: its promise unsettled, its
  handler registered, its timer armed. A second \<^verbatim>\<open>stop()\<close> and the exit of the killed
  process change nothing of that; the session's caller hears of it only through the
  streaming timeout.
\<close>

theorem stop_leaves_streaming_session:
  "(let s = run [CallSend [(''action'', JStr ''index'')] ''u1'' ''t1'',
                 CallSendStreaming [(''action'', JStr ''query'')] ''u2'' ''t2'',
                 CallStop] booted
    in pending s = [] \<and> \<not> ready s
     \<and> outcomes 1 s = [Reject 1 (Error (JStr ''Engine stopped''))]
     \<and> outcomes 2 s = []
     \<and> listeners s = [StreamHandler 2 ''u2'']
     \<and> timers s = [StreamingTimer 2 ''u2''])
   \<and> (let s = run [CallSend [(''action'', JStr ''index'')] ''u1'' ''t1'',
                    CallSendStreaming [(''action'', JStr ''query'')] ''u2'' ''t2'',
                    CallStop, CallStop, Exit JNull] booted
       in outcomes 2 s = []
        \<and> listeners s = [StreamHandler 2 ''u2'']
        \<and> timers s = [StreamingTimer 2 ''u2''])
   \<and> outcomes 2 (run [CallSend [(''action'', JStr ''index'')] ''u1'' ''t1'',
                       CallSendStreaming [(''action'', JStr ''query'')] ''u2'' ''t2'',
                       CallStop, CallStop, Exit JNull, Timeout (StreamingTimer 2 ''u2'')] booted)
       = [Reject 2 (Error (JStr ''Streaming timeout (300s)''))]"
  by (simp add: booted_def run_defs prim_defs send_def sendStreaming_def on_exit_def stop_def
      kill_def readline_close_def rejectAllPending_def outcomes_def fire_def streaming_timeout_def)

subsection \<open>C10: Registration before the write\<close>

text \<open>
  C10. Registration before the write. In any reachable state with the ready flag set,
  \<open>send\<close> arms its timer, enters the request in \<open>pending\<close> and only then writes the
  request line; \<open>sendStreaming\<close> arms its timer, registers its handler and only then
  writes. So a terminal response handled once the call has returned finds the
  registration and settles the promise.
\<close>

theorem registered_before_write:
  assumes "s = run evs0 (new_bridge path dflt)" and "ready s"
    and "get_prop response ''id'' = Inr (JStr ident)"
    and "js_prop response ''status'' = JStr ''success''"
  shows "(\<exists>h s'. send request ident now s = Inr (h, s')
           \<and> trace s' = trace s @ [SetTimeout (RequestTimer h ident) 60000,
                                     PendingSet ident h,
                                     StdinWrite (outbound request ident now)]
           \<and> map_of (pending s') ident = Some \<lparr>promise = h, timeout = RequestTimer h ident\<rparr>
           \<and> RequestTimer h ident \<in> set (timers s')
           \<and> outcomes h (on_line line (Some response) s') = [Resolve h (js_prop response ''data'')])
       \<and> (\<exists>h s'. sendStreaming request ident now s = Inr (h, s')
           \<and> trace s' = trace s @ [SetTimeout (StreamingTimer h ident) 300000,
                                     AddListener (StreamHandler h ident),
                                     StdinWrite (outbound request ident now)]
           \<and> StreamHandler h ident \<in> set (listeners s')
           \<and> StreamingTimer h ident \<in> set (timers s')
           \<and> outcomes h (on_line line (Some response) s') = [Resolve h JUndefined])"
proof -
  have "ready_inv s" using assms(1) by (simp add: ready_inv_reachable)
  then have p: "process s \<noteq> None" using assms(2) by (auto simp: ready_inv_def)
  obtain s1 where u: "send request ident now s = Inr (next_handle s, s1)"
    "trace s1 = trace s @ [SetTimeout (RequestTimer (next_handle s) ident) 60000,
                            PendingSet ident (next_handle s),
                            StdinWrite (outbound request ident now)]"
    using send_trace [OF assms(2) p] by blast
  have ns: "js_prop response ''status'' \<noteq> JStr ''streaming''" using assms(4) by simp
  have u3: "outcomes (next_handle s) (on_line line (Some response) s1)
              = [Resolve (next_handle s) (js_prop response ''data'')]"
    using unary_response [OF assms(1) u(1) assms(3) ns, where evs = "[]" and line = line] assms(4)
    by (simp add: run_def)
  obtain s2 where v: "sendStreaming request ident now s = Inr (next_handle s, s2)"
    "trace s2 = trace s @ [SetTimeout (StreamingTimer (next_handle s) ident) 300000,
                            AddListener (StreamHandler (next_handle s) ident),
                            StdinWrite (outbound request ident now)]"
    "StreamHandler (next_handle s) ident \<in> set (listeners s2)"
    "StreamingTimer (next_handle s) ident \<in> set (timers s2)"
    using sendStreaming_trace [OF assms(2) p] by blast
  have v3: "outcomes (next_handle s) (on_line line (Some response) s2) = [Resolve (next_handle s) JUndefined]"
    using streaming_response [OF assms(1) v(1) assms(3,4)] .
  show ?thesis using u u3 send_registered [OF u(1)] v v3 by blast
qed

theorem registered_before_write_witness:
  "ready booted
   \<and> get_prop (JObj [(''id'', JStr ''u1''), (''status'', JStr ''success''), (''data'', JNum 3)]) ''id''
       = Inr (JStr ''u1'')
   \<and> (\<exists>h s'. send [(''action'', JStr ''index'')] ''u1'' ''t1'' booted = Inr (h, s')
        \<and> trace s' = trace booted @ [SetTimeout (RequestTimer h ''u1'') 60000,
                                     PendingSet ''u1'' h,
                                     StdinWrite (JObj [(''action'', JStr ''index''), (''id'', JStr ''u1''),
                                                       (''timestamp'', JStr ''t1'')])]
        \<and> outcomes h (on_line ''x'' (Some (JObj [(''id'', JStr ''u1''), (''status'', JStr ''success''),
                                                   (''data'', JNum 3)])) s')
            = [Resolve h (JNum 3)])"
proof -
  let ?r = "JObj [(''id'', JStr ''u1''), (''status'', JStr ''success''), (''data'', JNum 3)]"
  have b: "booted = run [CallStart (\<lambda>p. True), Line ready_text (Some ready_line)]
              (new_bridge None ''/opt/engine'')"
    by (simp add: booted_def ready_text_def)
  have i: "get_prop ?r ''id'' = Inr (JStr ''u1'')" "js_prop ?r ''status'' = JStr ''success''"
    by (simp_all add: get_prop_def)
  have o: "outbound [(''action'', JStr ''index'')] ''u1'' ''t1''
         = JObj [(''action'', JStr ''index''), (''id'', JStr ''u1''), (''timestamp'', JStr ''t1'')]"
    by (simp add: outbound_def)
  from registered_before_write [OF b booted_fields(1) i,
      where request = "[(''action'', JStr ''index'')]" and now = "''t1''" and line = "''x''"]
  show ?thesis using booted_fields(1) i o by auto
qed

section \<open>Further properties\<close>

text \<open>
  X1. The sweep on exit, for unary requests. When the worker process exits, in any
  reachable state, every request entered in \<open>pending\<close>, until then unsettled, is rejected
  exactly once with "Engine exited with code" and the exit code, and \<open>pending\<close> is left
  empty.
\<close>

theorem exit_rejects_pending:
  assumes "s = run evs0 (new_bridge path dflt)"
    and "process s \<noteq> None"
  shows "pending (step (Exit code) s) = []
       \<and> list_all (\<lambda>(k, p). outcomes (promise p) s = []
            \<and> outcomes (promise p) (step (Exit code) s)
                = [Reject (promise p) (ErrorT ''Engine exited with code '' code)])
           (pending s)"
proof -
  let ?s1 = "act (EmitExit code) s"
  have st: "step (Exit code) s = rejectAllPending (ErrorT ''Engine exited with code '' code) ?s1"
    using assms(2) by (auto simp: on_exit_def)
  have p1: "pending ?s1 = pending s" by (simp add: act_def)
  have inv: "pend_inv s" using assms(1) by (simp add: pend_inv_reachable)
  have "outcomes (promise p) s = []
      \<and> outcomes (promise p) (step (Exit code) s)
          = [Reject (promise p) (ErrorT ''Engine exited with code '' code)]"
    if m: "(k, p) \<in> set (pending s)" for k p
  proof -
    have l: "live_req (promise p) k s" using inv m by (auto simp: pend_inv_def list_all_iff)
    then have "live_req (promise p) k ?s1"
      using frame_before_sweep(2) by (rule frame_live_req [rotated])
    moreover have "(k, p) \<in> set (pending ?s1)" using m p1 by simp
    ultimately have "outcomes (promise p) (rejectAllPending (ErrorT ''Engine exited with code '' code) ?s1)
          = [Reject (promise p) (ErrorT ''Engine exited with code '' code)]"
      by (rule sweep_rejects_entry) simp
    then show ?thesis using l st by (simp add: live_req_def)
  qed
  then show ?thesis using st by (auto simp: list_all_iff)
qed

theorem exit_rejects_pending_witness:
  "(case send [(''action'', JStr ''index'')] ''u1'' ''t1'' booted of
      Inl e \<Rightarrow> False
    | Inr (h, s') \<Rightarrow>
        process s' = Some Running
        \<and> pending s' = [(''u1'', \<lparr>promise = h, timeout = RequestTimer h ''u1''\<rparr>)]
        \<and> pending (step (Exit (JNum 1)) s') = []
        \<and> outcomes h (step (Exit (JNum 1)) s') = [Reject h (ErrorT ''Engine exited with code '' (JNum 1))])"
proof -
  obtain s' where c: "send [(''action'', JStr ''index'')] ''u1'' ''t1'' booted = Inr (1, s')"
    by (simp add: send_def Let_def booted_fields)
  have p: "pending s' = [(''u1'', \<lparr>promise = 1, timeout = RequestTimer 1 ''u1''\<rparr>)]"
    "process s' = Some Running"
    using c by (auto simp: send_def Let_def booted_fields prim_defs)
  have r: "s' = run [CallStart (\<lambda>p. True), Line ready_text (Some ready_line),
                     CallSend [(''action'', JStr ''index'')] ''u1'' ''t1'']
                 (new_bridge None ''/opt/engine'')"
    using c by (simp add: run_def booted_def)
  have "process s' \<noteq> None" using p(2) by simp
  from exit_rejects_pending [OF r this, of "JNum 1"] p c
  show ?thesis by simp
qed

text \<open>
  X2. Chunks in order. A streaming session that the worker answers with any number of
  messages of status "streaming" that are not the last one, and then the last one, gets
  one call of its sink per message, in the order of the messages, each with the message's
  data; its promise is unsettled until the last message and resolved by it. This holds
  for messages that follow the call directly and for messages that come at any later
  time at which the session is still unsettled.
\<close>

theorem chunks_in_order:
  assumes "s = run evs0 (new_bridge path dflt)"
    and "sendStreaming request ident now s = Inr (h, s')"
    and "list_all (is_chunk ident) rs" and "is_done ident r"
  shows "outcomes h (feed rs s') = []
       \<and> chunks h (feed rs s') = map (\<lambda>r. OnChunk h (js_prop r ''data'')) rs
       \<and> chunks h (feed (rs @ [r]) s') = map (\<lambda>r. OnChunk h (js_prop r ''data'')) (rs @ [r])
       \<and> outcomes h (feed (rs @ [r]) s') = [Resolve h JUndefined]
       \<and> (outcomes h (run evs1 s') = [] \<longrightarrow>
            outcomes h (feed rs (run evs1 s')) = []
          \<and> chunks h (feed (rs @ [r]) (run evs1 s'))
              = chunks h (run evs1 s') @ map (\<lambda>r. OnChunk h (js_prop r ''data'')) (rs @ [r])
          \<and> outcomes h (feed (rs @ [r]) (run evs1 s')) = [Resolve h JUndefined])"
proof -
  have w: "fresh_handles s" using assms(1) by (simp add: fresh_reachable)
  have fed: "outcomes h (feed rs t) = []
       \<and> chunks h (feed (rs @ [r]) t) = chunks h t @ map (\<lambda>r. OnChunk h (js_prop r ''data'')) (rs @ [r])
       \<and> chunks h (feed rs t) = chunks h t @ map (\<lambda>r. OnChunk h (js_prop r ''data'')) rs
       \<and> outcomes h (feed (rs @ [r]) t) = [Resolve h JUndefined]"
    if o: "session_open h ident t" for t
  proof -
    have u: "outcomes h t = []" using o by (simp add: session_open_def live_str_def)
    from feed_chunks [OF o assms(3)] u
    have f: "session_open h ident (feed rs t)"
      "chunks h (feed rs t) = chunks h t @ map (\<lambda>r. OnChunk h (js_prop r ''data'')) rs"
      "outcomes h (feed rs t) = []"
      by simp_all
    have "feed (rs @ [r]) t = on_line [] (Some r) (feed rs t)" by (simp add: feed_def)
    then show ?thesis using done_step [OF f(1) assms(4), of "[]"] f by simp
  qed
  have o: "session_open h ident s'" "chunks h s' = []"
    using sendStreaming_live [OF w assms(2)] by (simp_all add: session_open_def live_str_def)
  have "outcomes h (run evs1 s') = [] \<longrightarrow> session_open h ident (run evs1 s')"
    using session_open_unsettled [OF w assms(2)] by blast
  then show ?thesis using fed [OF o(1)] o(2) fed [of "run evs1 s'"] by auto
qed

theorem chunks_in_order_witness:
  "(case sendStreaming [(''action'', JStr ''query'')] ''u2'' ''t2'' booted of
      Inl e \<Rightarrow> False
    | Inr (h, s') \<Rightarrow>
        h = 1
        \<and> list_all (is_chunk ''u2'')
            [JObj [(''id'', JStr ''u2''), (''status'', JStr ''streaming''), (''data'', JStr ''A'')],
             JObj [(''id'', JStr ''u2''), (''status'', JStr ''streaming''), (''data'', JStr ''B'')]]
        \<and> is_done ''u2'' (JObj [(''id'', JStr ''u2''), (''status'', JStr ''streaming''),
                                 (''data'', JObj [(''type'', JStr ''done'')])])
        \<and> outcomes h (feed
            [JObj [(''id'', JStr ''u2''), (''status'', JStr ''streaming''), (''data'', JStr ''A'')],
             JObj [(''id'', JStr ''u2''), (''status'', JStr ''streaming''), (''data'', JStr ''B'')]] s') = []
        \<and> chunks h (feed
            [JObj [(''id'', JStr ''u2''), (''status'', JStr ''streaming''), (''data'', JStr ''A'')],
             JObj [(''id'', JStr ''u2''), (''status'', JStr ''streaming''), (''data'', JStr ''B'')],
             JObj [(''id'', JStr ''u2''), (''status'', JStr ''streaming''),
                   (''data'', JObj [(''type'', JStr ''done'')])]] s')
            = [OnChunk h (JStr ''A''), OnChunk h (JStr ''B''),
               OnChunk h (JObj [(''type'', JStr ''done'')])]
        \<and> outcomes h (feed
            [JObj [(''id'', JStr ''u2''), (''status'', JStr ''streaming''), (''data'', JStr ''A'')],
             JObj [(''id'', JStr ''u2''), (''status'', JStr ''streaming''), (''data'', JStr ''B'')],
             JObj [(''id'', JStr ''u2''), (''status'', JStr ''streaming''),
                   (''data'', JObj [(''type'', JStr ''done'')])]] s')
            = [Resolve h JUndefined])"
proof -
  obtain s' where c: "sendStreaming [(''action'', JStr ''query'')] ''u2'' ''t2'' booted = Inr (1, s')"
    by (simp add: sendStreaming_def Let_def booted_fields)
  have b: "booted = run [CallStart (\<lambda>p. True), Line ready_text (Some ready_line)]
              (new_bridge None ''/opt/engine'')"
    by (simp add: booted_def)
  have rs: "list_all (is_chunk ''u2'')
            [JObj [(''id'', JStr ''u2''), (''status'', JStr ''streaming''), (''data'', JStr ''A'')],
             JObj [(''id'', JStr ''u2''), (''status'', JStr ''streaming''), (''data'', JStr ''B'')]]"
    by (simp add: is_chunk_def get_prop_def opt_prop_def)
  have d: "is_done ''u2'' (JObj [(''id'', JStr ''u2''), (''status'', JStr ''streaming''),
                                 (''data'', JObj [(''type'', JStr ''done'')])])"
    by (simp add: is_done_def get_prop_def opt_prop_def)
  from chunks_in_order [OF b c rs d] show ?thesis using c rs d by simp
qed

text \<open>
  X3. Responses out of order. Two unary requests with different ids, sent one after the
  other, whose "success" responses arrive in the opposite order: each promise is resolved
  with the data of the response that carries its own id, and the first request stays
  unsettled while only the second has been answered.
\<close>

theorem responses_out_of_order:
  assumes "s = run evs0 (new_bridge path dflt)"
    and "send request1 ident1 now1 s = Inr (h1, s1)"
    and "send request2 ident2 now2 s1 = Inr (h2, s2)"
    and "ident1 \<noteq> ident2"
    and "get_prop r1 ''id'' = Inr (JStr ident1)" "js_prop r1 ''status'' = JStr ''success''"
    and "get_prop r2 ''id'' = Inr (JStr ident2)" "js_prop r2 ''status'' = JStr ''success''"
  shows "outcomes h1 (feed [r2] s2) = []
       \<and> outcomes h2 (feed [r2] s2) = [Resolve h2 (js_prop r2 ''data'')]
       \<and> outcomes h1 (feed [r2, r1] s2) = [Resolve h1 (js_prop r1 ''data'')]
       \<and> outcomes h2 (feed [r2, r1] s2) = [Resolve h2 (js_prop r2 ''data'')]"
proof -
  have w: "fresh_handles s" using assms(1) by (simp add: fresh_reachable)
  have "s1 = run (evs0 @ [CallSend request1 ident1 now1]) (new_bridge path dflt)"
    using assms(1,2) by (simp add: run_def)
  then have w1: "fresh_handles s1" by (simp only: fresh_reachable)
  have a1: "held h1 ident1 s1"
    using send_live [OF w assms(2)] send_registered [OF assms(2)] by (simp add: held_def)
  have a2: "held h1 ident1 s2" using a1 assms(3) assms(4) [symmetric] by (rule send_other_id)
  have b2: "held h2 ident2 s2"
    using send_live [OF w1 assms(3)] send_registered [OF assms(3)] by (simp add: held_def)
  define sa where "sa = on_line [] (Some r2) s2"
  define sb where "sb = on_line [] (Some r1) sa"
  have b3: "settled h2 sa" "outcomes h2 sa = [Resolve h2 (js_prop r2 ''data'')]"
    using held_response [OF b2 assms(7,8), of "[]"] by (simp_all add: sa_def)
  from handleResponse_other_id [OF a2 assms(7) assms(4) [symmetric]]
  have n: "fst (handleResponse r2 s2) = None" and a3': "held h1 ident1 (snd (handleResponse r2 s2))"
    by simp_all
  have "sa = snd (handleResponse r2 s2)"
    using n by (cases "handleResponse r2 s2") (simp add: on_line_def sa_def)
  then have a3: "held h1 ident1 sa" using a3' by simp
  then have o1: "outcomes h1 sa = []" by (simp add: held_def live_req_def)
  have a4: "outcomes h1 sb = [Resolve h1 (js_prop r1 ''data'')]"
    using held_response [OF a3 assms(5,6), of "[]"] by (simp add: sb_def)
  have "hlisteners h2 sa = []" "hpending h2 sa = []"
    using b3(1) by (simp_all add: settled_def dead_def)
  then have "frame h2 sa sb" unfolding sb_def by (rule frame_on_line)
  then have b4: "outcomes h2 sb = outcomes h2 sa" by (simp add: frame_def)
  have "feed [r2] s2 = sa" "feed [r2, r1] s2 = sb" by (simp_all add: feed_def sa_def sb_def)
  then show ?thesis using o1 b3(2) a4 b4 by simp
qed

theorem responses_out_of_order_witness:
  "(case send [(''action'', JStr ''index'')] ''u1'' ''t1'' booted of
      Inl e \<Rightarrow> False
    | Inr (h1, s1) \<Rightarrow>
       (case send [(''action'', JStr ''query'')] ''u2'' ''t2'' s1 of
          Inl e \<Rightarrow> False
        | Inr (h2, s2) \<Rightarrow>
            h1 = 1 \<and> h2 = 2
            \<and> outcomes h1 (feed
                [JObj [(''id'', JStr ''u2''), (''status'', JStr ''success''), (''data'', JStr ''B'')]] s2) = []
            \<and> outcomes h2 (feed
                [JObj [(''id'', JStr ''u2''), (''status'', JStr ''success''), (''data'', JStr ''B'')]] s2)
               = [Resolve h2 (JStr ''B'')]
            \<and> outcomes h1 (feed
                [JObj [(''id'', JStr ''u2''), (''status'', JStr ''success''), (''data'', JStr ''B'')],
                 JObj [(''id'', JStr ''u1''), (''status'', JStr ''success''), (''data'', JStr ''A'')]] s2)
               = [Resolve h1 (JStr ''A'')]
            \<and> outcomes h2 (feed
                [JObj [(''id'', JStr ''u2''), (''status'', JStr ''success''), (''data'', JStr ''B'')],
                 JObj [(''id'', JStr ''u1''), (''status'', JStr ''success''), (''data'', JStr ''A'')]] s2)
               = [Resolve h2 (JStr ''B'')]))"
proof -
  obtain s1 where c1: "send [(''action'', JStr ''index'')] ''u1'' ''t1'' booted = Inr (1, s1)"
    by (simp add: send_def Let_def booted_fields)
  then have "ready s1" "next_handle s1 = 2"
    by (auto simp: send_def Let_def booted_fields prim_defs)
  then obtain s2 where c2: "send [(''action'', JStr ''query'')] ''u2'' ''t2'' s1 = Inr (2, s2)"
    by (simp add: send_def Let_def)
  have b: "booted = run [CallStart (\<lambda>p. True), Line ready_text (Some ready_line)]
              (new_bridge None ''/opt/engine'')"
    by (simp add: booted_def)
  have i1: "get_prop (JObj [(''id'', JStr ''u1''), (''status'', JStr ''success''), (''data'', JStr ''A'')]) ''id''
            = Inr (JStr ''u1'')"
    and i2: "get_prop (JObj [(''id'', JStr ''u2''), (''status'', JStr ''success''), (''data'', JStr ''B'')]) ''id''
            = Inr (JStr ''u2'')"
    by (simp_all add: get_prop_def)
  have st1: "js_prop (JObj [(''id'', JStr ''u1''), (''status'', JStr ''success''), (''data'', JStr ''A'')]) ''status''
            = JStr ''success''"
    and st2: "js_prop (JObj [(''id'', JStr ''u2''), (''status'', JStr ''success''), (''data'', JStr ''B'')]) ''status''
            = JStr ''success''"
    by simp_all
  have ne: "''u1'' \<noteq> ''u2''" by simp
  from responses_out_of_order [OF b c1 c2 ne i1 st1 i2 st2]
  show ?thesis using c1 c2 by simp
qed

text \<open>
  X4. \<^verbatim>\<open>stop()\<close>, for unary requests. \<^verbatim>\<open>stop()\<close> is a total state transformer
  (none of its statements throws). On any reachable state it empties \<open>pending\<close> and
  clears the ready flag, and every request entered in \<open>pending\<close>, until then unsettled,
  is rejected exactly once with "Engine stopped". A second \<^verbatim>\<open>stop()\<close>, or the
  process-exit event that follows the kill, settles nothing more. On a bridge that was
  never started it only clears the empty map.
\<close>

theorem stop_idempotent:
  assumes "s = run evs0 (new_bridge path dflt)"
  shows "pending (stop s) = [] \<and> \<not> ready (stop s)
       \<and> list_all (\<lambda>(k, p). outcomes (promise p) s = []
            \<and> outcomes (promise p) (stop s) = [Reject (promise p) (Error (JStr ''Engine stopped''))])
           (pending s)
       \<and> filter is_settle (trace (stop (stop s))) = filter is_settle (trace (stop s))
       \<and> filter is_settle (trace (step (Exit code) (stop s))) = filter is_settle (trace (stop s))
       \<and> pending (stop (stop s)) = [] \<and> \<not> ready (stop (stop s))
       \<and> stop (new_bridge path dflt) = (new_bridge path dflt)\<lparr>trace := [PendingClear]\<rparr>"
proof -
  have "pend_inv s" using assms by (simp add: pend_inv_reachable)
  then have "list_all (\<lambda>(k, p). outcomes (promise p) s = []
            \<and> outcomes (promise p) (stop s) = [Reject (promise p) (Error (JStr ''Engine stopped''))])
           (pending s)"
    unfolding pend_inv_def list_all_iff using stop_rejects_entry by fastforce
  moreover have "\<not> ready (stop s)" "\<not> ready (stop (stop s))"
    by (simp_all add: not_ready_stop)
  moreover have "stop (new_bridge path dflt) = (new_bridge path dflt)\<lparr>trace := [PendingClear]\<rparr>"
    by (simp add: stop_def kill_def readline_close_def rejectAllPending_def pending_clear_def
        act_def new_bridge_def)
  moreover have "filter is_settle (trace (stop (stop s))) = filter is_settle (trace (stop s))"
    by (rule stop_again_settles) simp
  moreover have "filter is_settle (trace (step (Exit code) (stop s))) = filter is_settle (trace (stop s))"
    by (rule exit_after_sweep_settles) simp
  ultimately show ?thesis by simp
qed

theorem stop_idempotent_witness:
  "(case send [(''action'', JStr ''index'')] ''u1'' ''t1'' booted of
      Inl e \<Rightarrow> False
    | Inr (h, s') \<Rightarrow>
        pending s' = [(''u1'', \<lparr>promise = h, timeout = RequestTimer h ''u1''\<rparr>)]
        \<and> pending (stop s') = []
        \<and> outcomes h (stop s') = [Reject h (Error (JStr ''Engine stopped''))]
        \<and> filter is_settle (trace (stop (stop s'))) = filter is_settle (trace (stop s'))
        \<and> filter is_settle (trace (step (Exit JNull) (stop s'))) = filter is_settle (trace (stop s')))"
proof -
  obtain s' where c: "send [(''action'', JStr ''index'')] ''u1'' ''t1'' booted = Inr (1, s')"
    by (simp add: send_def Let_def booted_fields)
  have p: "pending s' = [(''u1'', \<lparr>promise = 1, timeout = RequestTimer 1 ''u1''\<rparr>)]"
    using c by (auto simp: send_def Let_def booted_fields prim_defs)
  have r: "s' = run [CallStart (\<lambda>p. True), Line ready_text (Some ready_line),
                     CallSend [(''action'', JStr ''index'')] ''u1'' ''t1'']
                 (new_bridge None ''/opt/engine'')"
    using c by (simp add: run_def booted_def ready_text_def)
  from stop_idempotent [OF r, of JNull] p c
  show ?thesis by simp
qed

end
